theory Spec2Isabelle
  imports Complex_Main "HOL-Library.Word"
begin

chapter \<open>The program\<close>

section \<open>Framing codec (parseMessage, formatMessage, part_006)\<close>

text \<open>
  A JavaScript string is a sequence of UTF-16 code units; \<^verbatim>\<open>length\<close>, \<^verbatim>\<open>substring\<close> and
  \<^verbatim>\<open>split\<close> count and cut code units. \<open>lit\<close> gives the string of an ASCII literal.
\<close>

type_synonym jsstring = "16 word list"

definition lit :: "string \<Rightarrow> jsstring" where
  "lit s = map (\<lambda>c. word_of_nat (of_char c)) s"

text \<open>The JSON values that \<^verbatim>\<open>JSON.parse\<close> returns.\<close>

datatype json =
  JNull | JBool bool | JNum real | JStr jsstring | JArr "json list"
| JObj "(jsstring \<times> json) list"

text \<open>\<^verbatim>\<open>MessagePayload\<close>: the type tag with its data.\<close>

datatype payload = Ping jsstring | Session json | Event json

text \<open>The decimal digits of \<^verbatim>\<open>`${n}`\<close> for a length \<open>n\<close>.\<close>

function decimal :: "nat \<Rightarrow> jsstring" where
  "decimal n = (if n < 10 then [word_of_nat (48 + n)]
                else decimal (n div 10) @ [word_of_nat (48 + n mod 10)])"
  by pat_completeness auto
termination
  by (relation "measure id") auto

text \<open>
  The regular expression \<^verbatim>\<open>/~m~\d+~m~/\<close> matched at the start of \<open>s\<close>: the length of the
  match, if there is one. \<^verbatim>\<open>\d\<close> is a digit \<^verbatim>\<open>0\<close> .. \<^verbatim>\<open>9\<close>; the digits are followed by a
  \<^verbatim>\<open>~\<close>, so the greedy \<^verbatim>\<open>\d+\<close> takes all of them.
\<close>

definition is_digit :: "16 word \<Rightarrow> bool" where
  "is_digit u = (48 \<le> u \<and> u \<le> 57)"

definition marker_len :: "jsstring \<Rightarrow> nat option" where
  "marker_len s =
     (if take 3 s = lit ''~m~'' then
        (let ds = takeWhile is_digit (drop 3 s) in
         if ds \<noteq> [] \<and> take 3 (drop (3 + length ds) s) = lit ''~m~''
         then Some (6 + length ds) else None)
      else None)"

text \<open>
  \<^verbatim>\<open>String.prototype.split\<close> with that expression, scanning from the left: \<open>seg\<close> is the
  piece collected since the last match. Every match ends a piece, the end of the string ends
  the last one.
\<close>

function split_marker :: "jsstring \<Rightarrow> jsstring \<Rightarrow> jsstring list" where
  "split_marker seg [] = [seg]"
| "split_marker seg (c # cs) =
     (case marker_len (c # cs) of
        Some n \<Rightarrow> seg # split_marker [] (drop n (c # cs))
      | None \<Rightarrow> split_marker (seg @ [c]) cs)"
  by pat_completeness auto
termination
  by (relation "measure (\<lambda>(seg, s). length s)")
     (auto simp: marker_len_def Let_def split: if_splits)

text \<open>\<^verbatim>\<open>const events = message.toString().split(/~m~\d+~m~/).slice(1)\<close>.\<close>

definition events :: "jsstring \<Rightarrow> jsstring list" where
  "events message = drop 1 (split_marker [] message)"

text \<open>
  The test \<^verbatim>\<open>parsed['session_id']\<close>: reading a property of \<^verbatim>\<open>null\<close> raises a TypeError
  (\<open>None\<close>); otherwise the result says whether the property is truthy. Only an object has
  the property; an object is the list of its properties, each key once.
\<close>

fun json_truthy :: "json \<Rightarrow> bool" where
  "json_truthy JNull = False"
| "json_truthy (JBool b) = b"
| "json_truthy (JNum x) = (x \<noteq> 0)"
| "json_truthy (JStr s) = (s \<noteq> [])"
| "json_truthy (JArr xs) = True"
| "json_truthy (JObj kvs) = True"

fun has_session_id :: "json \<Rightarrow> bool option" where
  "has_session_id JNull = None"
| "has_session_id (JObj kvs) =
     (case map_of kvs (lit ''session_id'') of None \<Rightarrow> Some False | Some x \<Rightarrow> Some (json_truthy x))"
| "has_session_id x = Some False"

text \<open>
  The body of both \<^verbatim>\<open>try\<close> blocks: \<open>JSON_parse\<close> is \<^verbatim>\<open>JSON.parse\<close>, with \<open>None\<close> for a
  SyntaxError. Every exception ends in the \<^verbatim>\<open>catch\<close>, which returns an event with the
  empty object.
\<close>

definition parse_json :: "(jsstring \<Rightarrow> json option) \<Rightarrow> jsstring \<Rightarrow> payload" where
  "parse_json JSON_parse text =
     (case JSON_parse text of
        None \<Rightarrow> Event (JObj [])
      | Some parsed \<Rightarrow>
          (case has_session_id parsed of
             None \<Rightarrow> Event (JObj [])
           | Some True \<Rightarrow> Session parsed
           | Some False \<Rightarrow> Event parsed))"

text \<open>The function mapped over \<^verbatim>\<open>events\<close>.\<close>

definition decode_event :: "(jsstring \<Rightarrow> json option) \<Rightarrow> jsstring \<Rightarrow> payload" where
  "decode_event JSON_parse event =
     (if take 3 event = lit ''~h~''
      then Ping (lit ''~m~'' @ decimal (length event) @ lit ''~m~'' @ event)
      else if take 3 event = lit ''~j~'' then parse_json JSON_parse (drop 3 event)
      else parse_json JSON_parse event)"

definition parseMessage :: "(jsstring \<Rightarrow> json option) \<Rightarrow> jsstring \<Rightarrow> payload list" where
  "parseMessage JSON_parse message =
     (if length message = 0 then [] else map (decode_event JSON_parse) (events message))"

text \<open>\<^verbatim>\<open>formatMessage\<close>, with \<^verbatim>\<open>JSON.stringify\<close> as the parameter \<open>JSON_stringify\<close>.\<close>

definition formatMessage :: "(json \<Rightarrow> jsstring) \<Rightarrow> jsstring \<Rightarrow> json list \<Rightarrow> jsstring" where
  "formatMessage JSON_stringify name params =
     (let data = JSON_stringify (JObj [(lit ''m'', JStr name), (lit ''p'', JArr params)])
      in lit ''~m~'' @ decimal (length data) @ lit ''~m~'' @ data)"

section \<open>Session manager: reconnection policy (connect, part_006)\<close>

text \<open>
  The closure variables of \<^verbatim>\<open>connect\<close> that the transport callbacks read and write.
  \<^verbatim>\<open>ws_open\<close> stands for \<^verbatim>\<open>ws?.readyState === WebSocket.OPEN\<close>, which the socket sets
  before it runs the \<^verbatim>\<open>open\<close> callback and clears before it runs the \<^verbatim>\<open>close\<close>
  callback; \<^verbatim>\<open>autoReconnect\<close> is the option of the same name (default true).
\<close>

record conn =
  ws_open :: bool
  connected :: bool
  reconnectAttempts :: nat
  manuallyClosed :: bool
  autoReconnect :: bool

text \<open>
  \<^verbatim>\<open>Math.min(5000 * Math.pow(1.5, reconnectAttempts), 60000)\<close>. The source computes in
  IEEE doubles. The powers \<open>1.5 ^ n\<close> and the products \<open>5000 * 1.5 ^ n\<close> for \<open>n \<le> 6\<close>
  are dyadic rationals with short mantissas, which doubles represent exactly; from \<open>n = 7\<close>
  on the product exceeds the cap by far more than any rounding, so the value taken is the
  constant 60000. The exact real arithmetic below therefore gives the same numbers.
\<close>

definition reconnect_delay :: "nat \<Rightarrow> real" where
  "reconnect_delay attempts = min (5000 * (3 / 2) ^ attempts) 60000"

text \<open>\<^verbatim>\<open>ws.on('open', ...)\<close>: the socket is open and the attempt counter is reset.\<close>

definition on_open :: "conn \<Rightarrow> conn" where
  "on_open c = c\<lparr>ws_open := True, reconnectAttempts := 0\<rparr>"

text \<open>
  \<^verbatim>\<open>ws.on('close', ...)\<close>: returns the new state and the delay of the scheduled
  \<^verbatim>\<open>setTimeout(() => initConnection(), delay)\<close>, if one is scheduled.
\<close>

definition on_close :: "conn \<Rightarrow> conn \<times> real option" where
  "on_close c =
     (let c1 = c\<lparr>ws_open := False, connected := False\<rparr> in
      if autoReconnect c1 \<and> \<not> manuallyClosed c1
      then (c1\<lparr>reconnectAttempts := reconnectAttempts c1 + 1\<rparr>,
            Some (reconnect_delay (reconnectAttempts c1)))
      else (c1, None))"


section \<open>Event dispatcher (subscribe, subscribers.forEach, part_006)\<close>

text \<open>
  The registry \<^verbatim>\<open>subscribers\<close> is a JavaScript \<^verbatim>\<open>Set\<close> of handler functions. Its entry list
  keeps the insertion order; \<^verbatim>\<open>add\<close> appends a handler that is not in the set, \<^verbatim>\<open>delete\<close>
  leaves an empty slot (\<open>None\<close>) in place of the entry. A handler is identified by a
  number. What a handler does when called belongs to the subscriber, not to the connection,
  so it is the parameter \<open>H\<close>: from the handler, the event and the state before the call it
  gives the state after the call and the exception raised, if any. The state \<open>'u world\<close>
  holds the registry, which a handler can change through \<^verbatim>\<open>subscribe\<close> and its
  unsubscribe function, and the state \<open>ustate\<close> of the subscribers.
\<close>

record 'u world =
  subscribers :: "nat option list"
  ustate :: 'u

definition subscribe :: "nat \<Rightarrow> 'u world \<Rightarrow> 'u world" where
  "subscribe h w =
     (if Some h \<in> set (subscribers w) then w
      else w\<lparr>subscribers := subscribers w @ [Some h]\<rparr>)"

text \<open>The function returned by \<^verbatim>\<open>subscribe\<close>: \<^verbatim>\<open>subscribers.delete(handler)\<close>.\<close>

definition unsubscribe :: "nat \<Rightarrow> 'u world \<Rightarrow> 'u world" where
  "unsubscribe h w =
     w\<lparr>subscribers := map (\<lambda>x. if x = Some h then None else x) (subscribers w)\<rparr>"



section \<open>Pagination engine (getCandles, candles.ts)\<close>

subsection \<open>Data\<close>

text \<open>
  \<^verbatim>\<open>RawCandle = { i: number; v: number[] }\<close> with \<^verbatim>\<open>v = [timestamp, open, high, low, close,
  volume]\<close>. The fields \<open>v0\<close> .. \<open>v5\<close> are \<^verbatim>\<open>v[0]\<close> .. \<^verbatim>\<open>v[5]\<close>; the timestamp is an
  integer number of seconds, the volume may be absent (\<^verbatim>\<open>c.v[5] || 0\<close>).
\<close>

record rawcandle =
  i :: int
  v0 :: int
  v1 :: real
  v2 :: real
  v3 :: real
  v4 :: real
  v5 :: "real option"

text \<open>
  \<^verbatim>\<open>Candle\<close>. The field \<open>datetime\<close> holds the instant \<^verbatim>\<open>new Date(timestamp * 1000)\<close> in
  milliseconds, of which the source stores the ISO-8601 rendering.
\<close>

record candle =
  timestamp :: int
  datetime :: int
  c_open :: real
  c_high :: real
  c_low :: real
  c_close :: real
  volume :: real

text \<open>
  \<^verbatim>\<open>GetCandlesParams\<close> without the connection; \<open>from_ts\<close> and \<open>to_ts\<close> are the parameters
  \<^verbatim>\<open>from\<close> and \<^verbatim>\<open>to\<close>. A parameter that is absent or zero is falsy in the source's tests
  \<^verbatim>\<open>amount ? ...\<close>, \<^verbatim>\<open>from && ...\<close>, \<^verbatim>\<open>if (to)\<close>: \<open>given\<close> returns the value of a truthy
  parameter.
\<close>

record params =
  symbol :: string
  timeframe :: string
  amount :: "int option"
  from_ts :: "int option"
  to_ts :: "int option"

fun given :: "int option \<Rightarrow> int option" where
  "given None = None"
| "given (Some n) = (if n = 0 then None else Some n)"

text \<open>
  \<^verbatim>\<open>TradingViewEvent = { name, params }\<close>: \<open>ev_session\<close> is \<^verbatim>\<open>params[0]\<close>, the session
  identifier the service embeds, and \<open>ev_series\<close> is the object \<^verbatim>\<open>params[1]\<close>, which maps a
  series handle to the array \<^verbatim>\<open>s\<close> of its entry (no entries when \<^verbatim>\<open>params[1]\<close> is absent).
\<close>

record event =
  name :: string
  ev_session :: string
  ev_series :: "(string \<times> rawcandle list) list"

text \<open>Arguments and commands passed to \<^verbatim>\<open>connection.send(name, params)\<close>.\<close>

datatype arg = S string | N int | SymbolDescriptor string

type_synonym command = "string \<times> arg list"

text \<open>
  The exceptions a handler invocation can end with: \<^verbatim>\<open>oldestCandle.v[0]\<close> on an undefined
  \<^verbatim>\<open>oldestCandle\<close> is a TypeError, \<^verbatim>\<open>toISOString()\<close> of a date outside the range of
  \<^verbatim>\<open>Date\<close> is a RangeError.
\<close>

datatype js_error = TypeError | RangeError

text \<open>The only rejection of the promise: \<^verbatim>\<open>new Error(`Timeout ao buscar candles para ...`)\<close>.\<close>

datatype fetch_error = Timeout string

datatype 'a settled = Pending | Fulfilled 'a | Rejected fetch_error

text \<open>
  The closure variables of one \<^verbatim>\<open>getCandles\<close> call, together with the state of its
  promise, of its registration with the connection (\<open>subscribed\<close>) and of its timer
  (\<open>timer_armed\<close>).
\<close>

record fetch =
  rawCandles :: "rawcandle list"
  resolved :: bool
  requestCount :: nat
  lastLength :: nat
  stallCount :: nat
  subscribed :: bool
  timer_armed :: bool
  promise :: "candle list settled"

definition MAX_BATCH_SIZE :: int where
  "MAX_BATCH_SIZE = 10000"

subsection \<open>Deduplication and ordering\<close>

text \<open>
  \<^verbatim>\<open>Map.prototype.set\<close> on the entry list of a JavaScript \<^verbatim>\<open>Map\<close>: an existing key keeps
  its position and takes the new value, a new key is appended.
\<close>

fun map_set :: "'k \<Rightarrow> 'v \<Rightarrow> ('k \<times> 'v) list \<Rightarrow> ('k \<times> 'v) list" where
  "map_set k x [] = [(k, x)]"
| "map_set k x (p # ps) = (if fst p = k then (k, x) # ps else p # map_set k x ps)"

text \<open>\<^verbatim>\<open>rawCandles.forEach(c => uniqueCandles.set(c.v[0], c))\<close>, from the empty map.\<close>

definition uniqueCandles :: "rawcandle list \<Rightarrow> (int \<times> rawcandle) list" where
  "uniqueCandles raw = fold (\<lambda>c m. map_set (v0 c) c m) raw []"

text \<open>
  \<^verbatim>\<open>Array.from(uniqueCandles.values()).sort((a, b) => a.v[0] - b.v[0])\<close>; the sort of
  the source is stable, as is \<^const>\<open>sort_key\<close>.
\<close>

definition dedupe_sort :: "rawcandle list \<Rightarrow> rawcandle list" where
  "dedupe_sort raw = sort_key v0 (map snd (uniqueCandles raw))"

subsection \<open>Finalization\<close>

text \<open>\<^verbatim>\<open>toISOString\<close> raises a RangeError beyond 8.64e15 ms on either side of the epoch.\<close>

definition date_ok :: "int \<Rightarrow> bool" where
  "date_ok t = (\<bar>t * 1000\<bar> \<le> 8640000000000000)"

definition to_candle :: "rawcandle \<Rightarrow> candle" where
  "to_candle c =
     \<lparr>timestamp = v0 c, datetime = v0 c * 1000, c_open = v1 c, c_high = v2 c,
      c_low = v3 c, c_close = v4 c,
      volume = (case v5 c of None \<Rightarrow> 0 | Some x \<Rightarrow> x)\<rparr>"

text \<open>\<^verbatim>\<open>finalCandles.slice(-amount)\<close> for a number \<open>a\<close>, negative ones included.\<close>

definition slice_neg :: "int \<Rightarrow> 'a list \<Rightarrow> 'a list" where
  "slice_neg a xs =
     (if 0 \<le> a then drop (length xs - nat a) xs else drop (nat (- a)) xs)"

text \<open>
  The filters and the limit applied to the mapped candles: \<^verbatim>\<open>c.timestamp >= from\<close>,
  \<^verbatim>\<open>c.timestamp <= to\<close>, and \<^verbatim>\<open>slice(-amount)\<close> when
  \<^verbatim>\<open>amount && !from && finalCandles.length > amount\<close>.
\<close>

definition finalCandles :: "params \<Rightarrow> rawcandle list \<Rightarrow> candle list" where
  "finalCandles p raw =
     (let f0 = map to_candle raw;
          f1 = (case given (from_ts p) of
                  Some f \<Rightarrow> filter (\<lambda>c. timestamp c \<ge> f) f0 | None \<Rightarrow> f0);
          f2 = (case given (to_ts p) of
                  Some t \<Rightarrow> filter (\<lambda>c. timestamp c \<le> t) f1 | None \<Rightarrow> f1)
      in case given (amount p) of
           Some a \<Rightarrow>
             if given (from_ts p) = None \<and> int (length f2) > a then slice_neg a f2 else f2
         | None \<Rightarrow> f2)"

subsection \<open>The subscribed handler\<close>

definition request_more_data :: "string \<Rightarrow> command" where
  "request_more_data chartSession =
     (''request_more_data'', [S chartSession, S ''sds_1'', N MAX_BATCH_SIZE])"

text \<open>
  \<^verbatim>\<open>if (needMore) { requestCount++; console.log(... oldestCandle.v[0] ...);
  connection.send('request_more_data', ...); return; }\<close>. A result is the state the
  invocation leaves, the commands it passed to \<^verbatim>\<open>connection.send\<close>, and the exception it
  ended with, if any; the assignments made before a \<^verbatim>\<open>throw\<close> stay.
\<close>

definition need_more :: "string \<Rightarrow> rawcandle option \<Rightarrow> fetch \<Rightarrow> fetch \<times> command list \<times> js_error option" where
  "need_more chartSession oldestCandle s =
     (let s1 = s\<lparr>requestCount := requestCount s + 1\<rparr> in
      case oldestCandle of
        None \<Rightarrow> (s1, [], Some TypeError)
      | Some c \<Rightarrow>
          if date_ok (v0 c) then (s1, [request_more_data chartSession], None)
          else (s1, [], Some RangeError))"

text \<open>
  The finalization: \<^verbatim>\<open>resolved = true; clearTimeout(timeout); unsubscribe();\<close>, then the
  mapping (whose \<^verbatim>\<open>toISOString\<close> may raise), the filters and \<^verbatim>\<open>resolve(finalCandles)\<close>.
\<close>

definition finalize :: "params \<Rightarrow> fetch \<Rightarrow> fetch \<times> command list \<times> js_error option" where
  "finalize p s =
     (let s1 = s\<lparr>resolved := True, timer_armed := False, subscribed := False\<rparr> in
      if \<forall>c \<in> set (rawCandles s1). date_ok (v0 c)
      then (s1\<lparr>promise := (if promise s1 = Pending
                             then Fulfilled (finalCandles p (rawCandles s1))
                             else promise s1)\<rparr>, [], None)
      else (s1, [], Some RangeError))"

text \<open>The branch of the handler for \<^verbatim>\<open>series_completed\<close> and \<^verbatim>\<open>symbol_error\<close>.\<close>

definition completion :: "params \<Rightarrow> string \<Rightarrow> fetch \<Rightarrow> fetch \<times> command list \<times> js_error option" where
  "completion p chartSession s =
     (let raw = dedupe_sort (rawCandles s);
          currentLength = length raw;
          oldestCandle = (case raw of [] \<Rightarrow> None | c # _ \<Rightarrow> Some c);
          stall = (if requestCount s > 0 \<and> currentLength = lastLength s
                   then stallCount s + 1 else 0);
          s1 = s\<lparr>rawCandles := raw, stallCount := stall, lastLength := currentLength\<rparr>;
          byFrom = (case (given (from_ts p), oldestCandle) of
                      (Some f, Some c) \<Rightarrow> if v0 c > f then Some c else None
                    | _ \<Rightarrow> None);
          byAmount = (case given (amount p) of
                        Some a \<Rightarrow> int currentLength < a | None \<Rightarrow> False)
      in case byFrom of
           Some c \<Rightarrow>
             if stall \<ge> 3
             then (if date_ok (v0 c) then finalize p s1 else (s1, [], Some RangeError))
             else need_more chartSession oldestCandle s1
         | None \<Rightarrow>
             if byAmount \<and> \<not> stall \<ge> 3
             then need_more chartSession oldestCandle s1
             else finalize p s1)"

definition handler :: "params \<Rightarrow> string \<Rightarrow> fetch \<Rightarrow> event \<Rightarrow> fetch \<times> command list \<times> js_error option" where
  "handler p chartSession s e =
     (if name e = ''timescale_update'' then
        (case map_of (ev_series e) ''sds_1'' of
           Some newCandles \<Rightarrow>
             (s\<lparr>rawCandles := (if length (rawCandles s) = 0 then newCandles
                                 else newCandles @ rawCandles s)\<rparr>, [], None)
         | None \<Rightarrow> (s, [], None))
      else if name e \<in> set [''series_completed'', ''symbol_error''] then
        completion p chartSession s
      else (s, [], None))"

text \<open>
  The timer callback after 120 s: \<^verbatim>\<open>if (!resolved) { unsubscribe(); reject(...) }\<close>. It
  runs only if the timer was not cleared.
\<close>

definition timeout_fires :: "params \<Rightarrow> fetch \<Rightarrow> fetch" where
  "timeout_fires p s =
     (if timer_armed s then
        (let s1 = s\<lparr>timer_armed := False\<rparr> in
         if \<not> resolved s1
         then s1\<lparr>subscribed := False,
                 promise := (if promise s1 = Pending then Rejected (Timeout (symbol p))
                             else promise s1)\<rparr>
         else s1)
      else s)"


definition fetch_init :: fetch where
  "fetch_init = \<lparr>rawCandles = [], resolved = False, requestCount = 0, lastLength = 0,
     stallCount = 0, subscribed = True, timer_armed = True, promise = Pending\<rparr>"


text \<open>
  The events the connection dispatches, in order, to one fetch: an event reaches the handler
  only while it is subscribed. The result is the final state, the commands sent, and the
  exceptions raised by the invocations.
\<close>

fun deliver :: "params \<Rightarrow> string \<Rightarrow> event list \<Rightarrow> fetch \<Rightarrow> fetch \<times> command list \<times> js_error list" where
  "deliver p cs [] s = (s, [], [])"
| "deliver p cs (e # es) s =
     (if subscribed s then
        (case handler p cs s e of
           (s1, cmds, x) \<Rightarrow>
             (case deliver p cs es s1 of
                (s2, cmds2, xs) \<Rightarrow>
                  (s2, cmds @ cmds2, (case x of None \<Rightarrow> [] | Some err \<Rightarrow> [err]) @ xs)))
      else deliver p cs es s)"

definition more_requests :: "command list \<Rightarrow> nat" where
  "more_requests cmds = length (filter (\<lambda>c. fst c = ''request_more_data'') cmds)"

subsection \<open>Two fetches on one connection\<close>




subsection \<open>getCandlesMultiple\<close>

text \<open>
  \<^verbatim>\<open>getCandlesMultiple\<close> awaits one \<^verbatim>\<open>getCandles\<close> call per symbol, in order. How such a call
  ends depends on the service and on the timers, so the call is a parameter \<open>gc\<close>: from a
  symbol and the state \<open>w\<close> of everything outside the function it gives the outcome of the
  promise and the new outside state. An awaited promise that never settles (\<open>Pending\<close>)
  leaves the promise of \<^verbatim>\<open>getCandlesMultiple\<close> pending as well. \<open>results\<close> is the entry
  list of the \<^verbatim>\<open>Map\<close>.
\<close>

fun getCandlesMultiple_loop ::
  "(string \<Rightarrow> 'w \<Rightarrow> candle list settled \<times> 'w) \<Rightarrow> string list \<Rightarrow>
   (string \<times> candle list) list \<Rightarrow> 'w \<Rightarrow> (string \<times> candle list) list settled \<times> 'w" where
  "getCandlesMultiple_loop gc [] results w = (Fulfilled results, w)"
| "getCandlesMultiple_loop gc (sy # symbols) results w =
     (case gc sy w of
        (Fulfilled candles, w1) \<Rightarrow>
          getCandlesMultiple_loop gc symbols (map_set sy candles results) w1
      | (Rejected err, w1) \<Rightarrow>
          getCandlesMultiple_loop gc symbols (map_set sy [] results) w1
      | (Pending, w1) \<Rightarrow> (Pending, w1))"

definition getCandlesMultiple ::
  "(string \<Rightarrow> 'w \<Rightarrow> candle list settled \<times> 'w) \<Rightarrow> string list \<Rightarrow> 'w \<Rightarrow>
   (string \<times> candle list) list settled \<times> 'w" where
  "getCandlesMultiple gc symbols w = getCandlesMultiple_loop gc symbols [] w"

section \<open>A fetch on its connection\<close>

text \<open>
  \<^verbatim>\<open>close()\<close>: \<^verbatim>\<open>manuallyClosed = true; ws.close()\<close>. The socket leaves the state
  \<^verbatim>\<open>OPEN\<close> at once; its close event follows and runs the \<^verbatim>\<open>close\<close> callback. Neither
  touches the registry of subscribers.
\<close>

definition close_conn :: "conn \<Rightarrow> conn" where
  "close_conn c = c\<lparr>ws_open := False, manuallyClosed := True\<rparr>"

text \<open>
  \<^verbatim>\<open>send\<close>: the command is written to the socket if it is open and dropped with a warning
  otherwise. \<open>out\<close> are the commands written so far.
\<close>

definition send :: "conn \<Rightarrow> command \<Rightarrow> command list \<Rightarrow> command list" where
  "send c cmd out = (if ws_open c then out @ [cmd] else out)"

text \<open>
  What can happen to a connection that carries one \<^verbatim>\<open>getCandles\<close> call: the caller closes
  it, the transport reports that it is closed or open, an event arrives and is dispatched,
  or the 120 s timer of the call fires.
\<close>

datatype occurrence =
  CloseCalled | TransportClosed | TransportOpened | Incoming event | TimerFired

record system =
  sys_conn :: conn
  sys_fetch :: fetch
  written :: "command list"

fun step :: "params \<Rightarrow> string \<Rightarrow> occurrence \<Rightarrow> system \<Rightarrow> system" where
  "step p cs CloseCalled sys = sys\<lparr>sys_conn := close_conn (sys_conn sys)\<rparr>"
| "step p cs TransportClosed sys = sys\<lparr>sys_conn := fst (on_close (sys_conn sys))\<rparr>"
| "step p cs TransportOpened sys = sys\<lparr>sys_conn := on_open (sys_conn sys)\<rparr>"
| "step p cs (Incoming e) sys =
     (if subscribed (sys_fetch sys) then
        (case handler p cs (sys_fetch sys) e of
           (f, cmds, x) \<Rightarrow>
             sys\<lparr>sys_fetch := f, written := fold (send (sys_conn sys)) cmds (written sys)\<rparr>)
      else sys)"
| "step p cs TimerFired sys = sys\<lparr>sys_fetch := timeout_fires p (sys_fetch sys)\<rparr>"

definition run :: "params \<Rightarrow> string \<Rightarrow> occurrence list \<Rightarrow> system \<Rightarrow> system" where
  "run p cs occs sys = fold (step p cs) occs sys"


section \<open>Notions used in the statements\<close>

text \<open>The events on which the handler takes its completion branch.\<close>

definition is_completion :: "event \<Rightarrow> bool" where
  "is_completion e = (name e \<noteq> ''timescale_update'' \<and> name e \<in> {''series_completed'', ''symbol_error''})"

text \<open>
  The bar with timestamp \<open>t\<close> that stands last in the accumulator \<open>raw\<close>, which is the one
  written last into the map by \<^verbatim>\<open>forEach\<close>.
\<close>

definition last_at :: "rawcandle list \<Rightarrow> int \<Rightarrow> rawcandle option" where
  "last_at raw t =
     (let cs = filter (\<lambda>c. v0 c = t) raw in if cs = [] then None else Some (last cs))"

text \<open>
  The test of the stall counter: the deduplicated accumulator is as long as it was at the
  previous completion event. \<open>stall_next\<close> is the value the handler assigns to
  \<^verbatim>\<open>stallCount\<close>, and \<open>after_dedupe\<close> the state after the assignments to \<^verbatim>\<open>rawCandles\<close>,
  \<^verbatim>\<open>stallCount\<close> and \<^verbatim>\<open>lastLength\<close>.
\<close>

definition no_growth :: "fetch \<Rightarrow> bool" where
  "no_growth s = (length (dedupe_sort (rawCandles s)) = lastLength s)"

definition stall_next :: "fetch \<Rightarrow> nat" where
  "stall_next s = (if requestCount s > 0 \<and> no_growth s then stallCount s + 1 else 0)"

definition after_dedupe :: "fetch \<Rightarrow> fetch" where
  "after_dedupe s = s\<lparr>rawCandles := dedupe_sort (rawCandles s), stallCount := stall_next s,
     lastLength := length (dedupe_sort (rawCandles s))\<rparr>"

text \<open>
  A run of events, delivered from the state \<open>s\<close>, in which every completion event that
  reaches the handler is observed with no growth.
\<close>

fun stalled_run :: "params \<Rightarrow> string \<Rightarrow> fetch \<Rightarrow> event list \<Rightarrow> bool" where
  "stalled_run p cs s [] = True"
| "stalled_run p cs s (e # es) =
     (if subscribed s
      then (is_completion e \<longrightarrow> no_growth s) \<and> stalled_run p cs (fst (handler p cs s e)) es
      else True)"

text \<open>
  The \<^verbatim>\<open>getCandles\<close> calls that \<^verbatim>\<open>getCandlesMultiple\<close> makes, each with its outcome, in
  order, and the list a call contributes to the result.
\<close>

fun calls :: "(string \<Rightarrow> 'w \<Rightarrow> candle list settled \<times> 'w) \<Rightarrow> string list \<Rightarrow> 'w \<Rightarrow>
    (string \<times> candle list settled) list" where
  "calls gc [] w = []"
| "calls gc (sy # symbols) w =
     (sy, fst (gc sy w)) #
       (if fst (gc sy w) = Pending then [] else calls gc symbols (snd (gc sy w)))"

fun candles_of :: "candle list settled \<Rightarrow> candle list" where
  "candles_of (Fulfilled candles) = candles"
| "candles_of (Rejected err) = []"
| "candles_of Pending = []"

text \<open>The entry that a call leaves in \<open>results\<close>.\<close>

definition put :: "string \<times> candle list settled \<Rightarrow> (string \<times> candle list) list \<Rightarrow> (string \<times> candle list) list" where
  "put c m = map_set (fst c) (candles_of (snd c)) m"

text \<open>
  The envelope of a payload with the digits \<open>ds\<close> as its length field, and the envelope
  whose length field is the length of the payload in code units.
\<close>

definition frame :: "jsstring \<Rightarrow> jsstring \<Rightarrow> jsstring" where
  "frame ds pl = lit ''~m~'' @ ds @ lit ''~m~'' @ pl"

definition envelope :: "jsstring \<Rightarrow> jsstring" where
  "envelope pl = frame (decimal (length pl)) pl"

text \<open>The payload contains the text \<^verbatim>\<open>~m~\<close>.\<close>

fun has_delim :: "jsstring \<Rightarrow> bool" where
  "has_delim [] = False"
| "has_delim (c # cs) = (take 3 (c # cs) = lit ''~m~'' \<or> has_delim cs)"

text \<open>
  The byte length of a payload in the spec's words: the number of bytes of its UTF-8
  encoding, in which a text frame travels. A code unit below \<open>0x80\<close> takes one byte, one
  below \<open>0x800\<close> two, a surrogate pair four, and any other code unit three.
\<close>

definition unit_bytes :: "16 word \<Rightarrow> nat" where
  "unit_bytes u = (if u < 0x80 then 1 else if u < 0x800 then 2 else 3)"

fun utf8_length :: "jsstring \<Rightarrow> nat" where
  "utf8_length [] = 0"
| "utf8_length [u] = unit_bytes u"
| "utf8_length (u # v # us) =
     (if 0xD800 \<le> u \<and> u < 0xDC00 \<and> 0xDC00 \<le> v \<and> v < 0xE000 then 4 + utf8_length us
      else unit_bytes u + utf8_length (v # us))"

definition envelope_bytes :: "jsstring \<Rightarrow> jsstring" where
  "envelope_bytes pl = frame (decimal (utf8_length pl)) pl"

text \<open>
  A frame, given by its length digits and its payload, such that the split finds it: the
  length field is a non-empty string of digits and the payload does not contain the text
  \<^verbatim>\<open>~m~\<close>. \<open>chunk\<close> is the concatenation of the frames.
\<close>

definition well_formed :: "jsstring \<times> jsstring \<Rightarrow> bool" where
  "well_formed f = (fst f \<noteq> [] \<and> list_all is_digit (fst f) \<and> \<not> has_delim (snd f))"

definition chunk :: "(jsstring \<times> jsstring) list \<Rightarrow> jsstring" where
  "chunk fs = concat (map (\<lambda>f. frame (fst f) (snd f)) fs)"







section \<open>Sample inputs\<close>

text \<open>
  Concrete bars, events and requests on which the statements below are evaluated: a bar with
  timestamp \<open>t\<close> and close \<open>c\<close>, a data push of a batch for the series \<^verbatim>\<open>sds_1\<close>, a
  completion event, a request driven by an amount, and one with no bound at all; \<open>cs\<close> is
  the session identifier the event carries.
\<close>

definition bar :: "int \<Rightarrow> real \<Rightarrow> rawcandle" where
  "bar t c = \<lparr>i = 0, v0 = t, v1 = 1, v2 = 2, v3 = 0, v4 = c, v5 = None\<rparr>"

definition push :: "string \<Rightarrow> rawcandle list \<Rightarrow> event" where
  "push cs bs = \<lparr>name = ''timescale_update'', ev_session = cs, ev_series = [(''sds_1'', bs)]\<rparr>"

definition completed :: "string \<Rightarrow> event" where
  "completed cs = \<lparr>name = ''series_completed'', ev_session = cs, ev_series = []\<rparr>"

definition by_amount :: "int \<Rightarrow> params" where
  "by_amount a = \<lparr>symbol = ''X'', timeframe = ''60'', amount = Some a, from_ts = None, to_ts = None\<rparr>"

definition unbounded :: "params" where
  "unbounded = \<lparr>symbol = ''X'', timeframe = ''60'', amount = None, from_ts = None, to_ts = None\<rparr>"

text \<open>A request driven by a start time, and a batch of four bars.\<close>

definition since :: "int \<Rightarrow> params" where
  "since f = \<lparr>symbol = ''X'', timeframe = ''60'', amount = None, from_ts = Some f, to_ts = None\<rparr>"

definition four_bars :: "rawcandle list" where
  "four_bars = [bar 1 1, bar 2 2, bar 3 3, bar 4 4]"

text \<open>
  A \<^verbatim>\<open>getCandles\<close> that times out for the symbol \<^verbatim>\<open>BAD\<close> and resolves with one bar for
  every other symbol; the outside state counts the calls.
\<close>

definition flaky :: "string \<Rightarrow> nat \<Rightarrow> candle list settled \<times> nat" where
  "flaky sy w = (if sy = ''BAD'' then Rejected (Timeout sy) else Fulfilled [to_candle (bar 1 1)],
     w + 1)"

text \<open>
  A \<^verbatim>\<open>getCandles\<close> whose promise never settles, and one whose first call times out and
  whose later calls resolve with one bar.
\<close>

definition hanging :: "string \<Rightarrow> nat \<Rightarrow> candle list settled \<times> nat" where
  "hanging sy w = (Pending, w + 1)"

definition fail_first :: "string \<Rightarrow> nat \<Rightarrow> candle list settled \<times> nat" where
  "fail_first sy w =
     (if w = 0 then Rejected (Timeout sy) else Fulfilled [to_candle (bar 1 1)], w + 1)"



chapter \<open>Properties\<close>

section \<open>Reconnection delays\<close>






section \<open>Deduplication, ordering and finalization\<close>

lemma map_of_map_set: "map_of (map_set k x m) = (map_of m)(k \<mapsto> x)"
  by (induction m) auto

lemma keys_map_set:
  "map fst (map_set k x m) = (if k \<in> set (map fst m) then map fst m else map fst m @ [k])"
  by (induction m) auto

lemma distinct_map_set: "distinct (map fst m) \<Longrightarrow> distinct (map fst (map_set k x m))"
  by (simp add: keys_map_set)

lemma fold_map_set_distinct:
  "distinct (map fst m) \<Longrightarrow> distinct (map fst (fold (\<lambda>c. map_set (v0 c) c) raw m))"
  by (induction raw arbitrary: m) (simp_all add: distinct_map_set)

lemma fold_map_set_map_of:
  "map_of (fold (\<lambda>c. map_set (v0 c) c) raw m) = map_of m ++ map_of (rev (map (\<lambda>c. (v0 c, c)) raw))"
proof (induction raw arbitrary: m)
  case Nil
  then show ?case by simp
next
  case (Cons c raw)
  show ?case
    by (simp add: Cons.IH map_of_map_set map_add_upd_left fun_eq_iff map_add_def split: option.splits)
qed

lemma map_of_rev_last_at: "map_of (rev (map (\<lambda>c. (v0 c, c)) raw)) t = last_at raw t"
  by (induction raw rule: rev_induct) (auto simp: last_at_def Let_def)

lemma map_of_uniqueCandles: "map_of (uniqueCandles raw) = last_at raw"
  by (simp add: uniqueCandles_def fold_map_set_map_of map_of_rev_last_at fun_eq_iff)

lemma distinct_uniqueCandles: "distinct (map fst (uniqueCandles raw))"
  by (simp add: uniqueCandles_def fold_map_set_distinct)

lemma last_at_Some: "last_at raw t = Some c \<Longrightarrow> c \<in> set raw \<and> v0 c = t"
proof -
  assume a: "last_at raw t = Some c"
  then have ne: "filter (\<lambda>c. v0 c = t) raw \<noteq> []" and c: "c = last (filter (\<lambda>c. v0 c = t) raw)"
    by (auto simp: last_at_def Let_def split: if_splits)
  from last_in_set [OF ne] c show ?thesis by auto
qed

lemma last_at_None: "last_at raw t = None \<longleftrightarrow> t \<notin> v0 ` set raw"
proof -
  have "last_at raw t = None \<longleftrightarrow> filter (\<lambda>c. v0 c = t) raw = []"
    by (simp add: last_at_def Let_def)
  also have "\<dots> \<longleftrightarrow> t \<notin> v0 ` set raw"
    by (auto simp: filter_empty_conv)
  finally show ?thesis .
qed

lemma uniqueCandles_entries:
  "(k, c) \<in> set (uniqueCandles raw) \<longleftrightarrow> last_at raw k = Some c"
  using distinct_uniqueCandles [of raw] map_of_uniqueCandles [of raw]
  by (metis map_of_eq_Some_iff)

lemma uniqueCandles_keys: "map fst (uniqueCandles raw) = map (v0 \<circ> snd) (uniqueCandles raw)"
proof (rule map_cong [OF refl])
  fix x assume "x \<in> set (uniqueCandles raw)"
  then have "last_at raw (fst x) = Some (snd x)"
    using uniqueCandles_entries [of "fst x" "snd x" raw] by simp
  then show "fst x = (v0 \<circ> snd) x"
    using last_at_Some by fastforce
qed

lemma set_dedupe_sort: "set (dedupe_sort raw) = {c. last_at raw (v0 c) = Some c}"
proof (rule set_eqI)
  fix c
  have "c \<in> set (dedupe_sort raw) \<longleftrightarrow> (\<exists>k. (k, c) \<in> set (uniqueCandles raw))"
    by (force simp: dedupe_sort_def)
  also have "\<dots> \<longleftrightarrow> (\<exists>k. last_at raw k = Some c)"
    by (simp add: uniqueCandles_entries)
  also have "\<dots> \<longleftrightarrow> last_at raw (v0 c) = Some c"
    using last_at_Some by blast
  finally show "c \<in> set (dedupe_sort raw) \<longleftrightarrow> c \<in> {c. last_at raw (v0 c) = Some c}"
    by simp
qed

lemma distinct_keys_dedupe_sort: "distinct (map v0 (dedupe_sort raw))"
proof -
  have "distinct (map v0 (map snd (uniqueCandles raw)))"
    using distinct_uniqueCandles [of raw] uniqueCandles_keys [of raw] by simp
  then have "distinct (map snd (uniqueCandles raw)) \<and> inj_on v0 (set (map snd (uniqueCandles raw)))"
    by (simp only: distinct_map)
  then have "distinct (dedupe_sort raw) \<and> inj_on v0 (set (dedupe_sort raw))"
    by (simp add: dedupe_sort_def)
  then show ?thesis
    by (simp only: distinct_map)
qed

lemma sorted_dedupe_sort: "sorted (map v0 (dedupe_sort raw))"
  by (simp add: dedupe_sort_def)

lemma strict_dedupe_sort: "sorted_wrt (<) (map v0 (dedupe_sort raw))"
  using sorted_dedupe_sort [of raw] distinct_keys_dedupe_sort [of raw]
  by (simp add: strict_sorted_iff)

lemma keys_dedupe_sort: "set (map v0 (dedupe_sort raw)) = v0 ` set raw"
proof (rule set_eqI)
  fix t
  have "t \<in> set (map v0 (dedupe_sort raw)) \<longleftrightarrow> (\<exists>c. last_at raw (v0 c) = Some c \<and> v0 c = t)"
    by (auto simp: set_dedupe_sort)
  also have "\<dots> \<longleftrightarrow> (\<exists>c. last_at raw t = Some c)"
    using last_at_Some by blast
  also have "\<dots> \<longleftrightarrow> t \<in> v0 ` set raw"
    using last_at_None [of raw t] by auto
  finally show "t \<in> set (map v0 (dedupe_sort raw)) \<longleftrightarrow> t \<in> v0 ` set raw" .
qed

lemma timestamps_dedupe_sort: "map v0 (dedupe_sort raw) = sorted_list_of_set (v0 ` set raw)"
  using distinct_keys_dedupe_sort [of raw] keys_dedupe_sort [of raw] sorted_dedupe_sort [of raw]
  by (metis sorted_list_of_set.idem_if_sorted_distinct)

lemma last_at_append:
  "last_at (new @ acc) t = (case last_at acc t of Some c \<Rightarrow> Some c | None \<Rightarrow> last_at new t)"
  by (simp add: last_at_def Let_def)

lemma timestamp_to_candle: "map timestamp (map to_candle raw) = map v0 raw"
  by (simp add: to_candle_def)

lemma sorted_wrt_slice_neg: "sorted_wrt P xs \<Longrightarrow> sorted_wrt P (slice_neg a xs)"
  by (simp add: slice_neg_def sorted_wrt_drop)

lemma set_slice_neg: "set (slice_neg a xs) \<subseteq> set xs"
  by (auto simp: slice_neg_def dest: in_set_dropD)

lemma finalCandles_sorted:
  assumes "sorted_wrt (<) (map v0 raw)"
  shows "sorted_wrt (<) (map timestamp (finalCandles p raw))"
proof -
  have 0: "sorted_wrt (\<lambda>a b. timestamp a < timestamp b) (map to_candle raw)"
    using assms by (simp add: sorted_wrt_map to_candle_def)
  have "sorted_wrt (\<lambda>a b. timestamp a < timestamp b) (finalCandles p raw)"
    unfolding finalCandles_def Let_def
    by (auto intro!: sorted_wrt_slice_neg sorted_wrt_filter 0 split: option.splits)
  then show ?thesis by (simp add: sorted_wrt_map)
qed

lemma finalCandles_subset: "set (finalCandles p raw) \<subseteq> to_candle ` set raw"
proof -
  have "set (finalCandles p raw) \<subseteq> set (map to_candle raw)"
    unfolding finalCandles_def Let_def
    by (cases "given (from_ts p)"; cases "given (to_ts p)"; cases "given (amount p)")
       (auto dest: subsetD [OF set_slice_neg])
  then show ?thesis by simp
qed

lemma finalCandles_unbounded:
  "given (amount p) = None \<Longrightarrow> given (from_ts p) = None \<Longrightarrow> given (to_ts p) = None \<Longrightarrow>
   finalCandles p raw = map to_candle raw"
  by (simp add: finalCandles_def)

lemma finalCandles_bounds:
  assumes "b \<in> set (finalCandles p raw)"
  shows "(\<forall>f. given (from_ts p) = Some f \<longrightarrow> f \<le> timestamp b) \<and>
   (\<forall>t. given (to_ts p) = Some t \<longrightarrow> timestamp b \<le> t)"
  using assms unfolding finalCandles_def Let_def
  by (cases "given (from_ts p)"; cases "given (to_ts p)"; cases "given (amount p)")
     (auto dest: subsetD [OF set_slice_neg] split: if_splits)

lemma need_more_promise: "promise (fst (need_more cs oc s)) = promise s"
  by (simp add: need_more_def Let_def split: option.splits)

lemma finalize_promise:
  "promise s = Pending \<Longrightarrow> promise (fst (finalize p s)) = Fulfilled bars \<Longrightarrow>
   bars = finalCandles p (rawCandles s)"
  by (simp add: finalize_def Let_def split: if_splits)

lemma completion_fulfilled:
  assumes "promise s = Pending" "promise (fst (completion p cs s)) = Fulfilled bars"
  shows "bars = finalCandles p (dedupe_sort (rawCandles s))"
  using assms unfolding completion_def Let_def
  by (auto simp: need_more_promise dest!: finalize_promise [rotated] split: option.splits if_splits prod.splits)

lemma handler_fulfilled:
  assumes "promise s = Pending" "promise (fst (handler p cs s e)) = Fulfilled bars"
  shows "is_completion e \<and> bars = finalCandles p (dedupe_sort (rawCandles s))"
  using assms completion_fulfilled [of s p cs bars]
  by (auto simp: handler_def is_completion_def split: option.splits if_splits)

lemma handler_push:
  "name e = ''timescale_update'' \<Longrightarrow> map_of (ev_series e) ''sds_1'' = Some new \<Longrightarrow>
   handler p cs s e = (s\<lparr>rawCandles := new @ rawCandles s\<rparr>, [], None)"
  by (simp add: handler_def)

lemmas sample_defs = bar_def push_def completed_def by_amount_def unbounded_def

lemmas run_defs = handler_def completion_def need_more_def finalize_def finalCandles_def
  dedupe_sort_def uniqueCandles_def to_candle_def date_ok_def fetch_init_def
  request_more_data_def slice_neg_def Let_def

text \<open>
  A bar of a newly delivered batch loses against the bar with the same timestamp that was
  accumulated before: the first push delivers close 10 for timestamp 1, the second push
  close 20, and the finalized sequence carries close 10. So it is not the most recently
  accumulated value that is used.
\<close>

theorem C1_most_recent_counterexample:
  "promise (fst (deliver unbounded ''cs_A''
      [push ''cs_A'' [bar 1 10], push ''cs_A'' [bar 1 20], completed ''cs_A''] fetch_init))
   = Fulfilled [to_candle (bar 1 10)]
   \<and> to_candle (bar 1 10) \<noteq> to_candle (bar 1 20)"
  by (simp add: sample_defs run_defs)

text \<open>
  C1 (amended). When a data push of a batch \<open>new\<close> is followed by a completion event that
  resolves the fetch, the finalized sequence is strictly ascending by timestamp, so no
  timestamp occurs twice; each of its bars is the bar that stands last with that timestamp
  in the accumulator, that is: the bar accumulated before the push if there is one, and
  otherwise the last such bar of the new batch; and when no amount, from or to is given,
  its timestamps are exactly the timestamps delivered, each once.
\<close>

theorem C1_finalized_unique_sorted:
  assumes "subscribed s" "promise s = Pending"
    and "name e1 = ''timescale_update''" "map_of (ev_series e1) ''sds_1'' = Some new"
    and "promise (fst (deliver p cs [e1, e2] s)) = Fulfilled bars"
  shows "sorted_wrt (<) (map timestamp bars)
    \<and> (\<forall>b \<in> set bars. \<exists>c. b = to_candle c \<and>
          (case last_at (rawCandles s) (timestamp b) of
             Some c' \<Rightarrow> c = c' | None \<Rightarrow> last_at new (timestamp b) = Some c))
    \<and> (given (amount p) = None \<and> given (from_ts p) = None \<and> given (to_ts p) = None \<longrightarrow>
          map timestamp bars = sorted_list_of_set (v0 ` (set new \<union> set (rawCandles s))))"
proof -
  let ?s1 = "s\<lparr>rawCandles := new @ rawCandles s\<rparr>"
  let ?acc = "new @ rawCandles s"
  have h1: "handler p cs s e1 = (?s1, [], None)"
    using assms(3,4) by (rule handler_push)
  have d: "fst (deliver p cs [e1, e2] s) = fst (handler p cs ?s1 e2)"
    using assms(1) h1 by (simp split: prod.splits)
  have "promise ?s1 = Pending" using assms(2) by simp
  from handler_fulfilled [OF this] assms(5) d
  have bars: "bars = finalCandles p (dedupe_sort ?acc)"
    by simp
  have 1: "sorted_wrt (<) (map timestamp bars)"
    unfolding bars by (rule finalCandles_sorted [OF strict_dedupe_sort])
  have 2: "\<exists>c. b = to_candle c \<and>
          (case last_at (rawCandles s) (timestamp b) of
             Some c' \<Rightarrow> c = c' | None \<Rightarrow> last_at new (timestamp b) = Some c)"
    if "b \<in> set bars" for b
  proof -
    from that finalCandles_subset [of p "dedupe_sort ?acc"]
    obtain c where c: "c \<in> set (dedupe_sort ?acc)" "b = to_candle c"
      unfolding bars by blast
    then have "last_at ?acc (v0 c) = Some c"
      by (simp add: set_dedupe_sort)
    moreover have "timestamp b = v0 c"
      using c(2) by (simp add: to_candle_def)
    ultimately show ?thesis
      using c(2) by (auto simp: last_at_append split: option.splits)
  qed
  have 3: "map timestamp bars = sorted_list_of_set (v0 ` (set new \<union> set (rawCandles s)))"
    if "given (amount p) = None \<and> given (from_ts p) = None \<and> given (to_ts p) = None"
    using that unfolding bars
    by (simp add: finalCandles_unbounded timestamp_to_candle timestamps_dedupe_sort del: map_map)
  from 1 2 3 show ?thesis by blast
qed

theorem C1_finalized_unique_sorted_witness:
  "subscribed (fetch_init\<lparr>rawCandles := [bar 1 10]\<rparr>)
   \<and> promise (fetch_init\<lparr>rawCandles := [bar 1 10]\<rparr>) = Pending
   \<and> name (push ''cs_A'' [bar 1 20, bar 0 5]) = ''timescale_update''
   \<and> map_of (ev_series (push ''cs_A'' [bar 1 20, bar 0 5])) ''sds_1'' = Some [bar 1 20, bar 0 5]
   \<and> promise (fst (deliver unbounded ''cs_A''
         [push ''cs_A'' [bar 1 20, bar 0 5], completed ''cs_A'']
         (fetch_init\<lparr>rawCandles := [bar 1 10]\<rparr>)))
       = Fulfilled [to_candle (bar 0 5), to_candle (bar 1 10)]
   \<and> sorted_wrt (<) (map timestamp [to_candle (bar 0 5), to_candle (bar 1 10)])
   \<and> last_at [bar 1 10] 1 = Some (bar 1 10)
   \<and> last_at [bar 1 10] 0 = None \<and> last_at [bar 1 20, bar 0 5] 0 = Some (bar 0 5)
   \<and> given (amount unbounded) = None \<and> given (from_ts unbounded) = None
   \<and> given (to_ts unbounded) = None
   \<and> map timestamp [to_candle (bar 0 5), to_candle (bar 1 10)] = [0, 1]"
  using C1_finalized_unique_sorted [of "fetch_init\<lparr>rawCandles := [bar 1 10]\<rparr>"
      "push ''cs_A'' [bar 1 20, bar 0 5]" "[bar 1 20, bar 0 5]" unbounded "''cs_A''"
      "completed ''cs_A''" "[to_candle (bar 0 5), to_candle (bar 1 10)]"]
  by (simp add: sample_defs run_defs last_at_def)

section \<open>The pagination loop\<close>

lemma map_set_fresh: "k \<notin> fst ` set m \<Longrightarrow> map_set k x m = m @ [(k, x)]"
  by (induction m) auto

lemma fold_map_set_fresh:
  "distinct (map fst m @ map v0 xs) \<Longrightarrow>
   fold (\<lambda>c. map_set (v0 c) c) xs m = m @ map (\<lambda>c. (v0 c, c)) xs"
proof (induction xs arbitrary: m)
  case Nil
  then show ?case by simp
next
  case (Cons c xs)
  then have fresh: "v0 c \<notin> fst ` set m" by auto
  have "distinct (map fst (m @ [(v0 c, c)]) @ map v0 xs)"
    using Cons.prems by auto
  from Cons.IH [OF this] show ?case
    by (simp add: map_set_fresh [OF fresh])
qed

lemma uniqueCandles_distinct: "distinct (map v0 xs) \<Longrightarrow> map snd (uniqueCandles xs) = xs"
  using fold_map_set_fresh [of "[]" xs] by (simp add: uniqueCandles_def comp_def)

lemma dedupe_sort_distinct: "distinct (map v0 xs) \<Longrightarrow> dedupe_sort xs = sort_key v0 xs"
  by (simp add: dedupe_sort_def uniqueCandles_distinct)


lemma length_dedupe_sort_distinct: "distinct (map v0 xs) \<Longrightarrow> length (dedupe_sort xs) = length xs"
  by (simp add: dedupe_sort_distinct)

lemma handler_completion: "is_completion e \<Longrightarrow> handler p cs s e = completion p cs s"
  by (auto simp: handler_def is_completion_def)

lemma deliver_unsubscribed: "\<not> subscribed s \<Longrightarrow> deliver p cs es s = (s, [], [])"
  by (induction es) simp_all


lemma completion_cases:
  assumes "completion p cs s = r"
  obtains (need) oc where "stall_next s < 3" "need_more cs oc (after_dedupe s) = r"
  | (final) "finalize p (after_dedupe s) = r"
  | (range) "3 \<le> stall_next s" "r = (after_dedupe s, [], Some RangeError)"
proof -
  have eq: "(if 0 < requestCount s \<and> length (dedupe_sort (rawCandles s)) = lastLength s
       then stallCount s + 1 else 0) = stall_next s"
    by (simp add: stall_next_def no_growth_def)
  have "(stall_next s < 3 \<and> (\<exists>oc. need_more cs oc (after_dedupe s) = completion p cs s))
   \<or> finalize p (after_dedupe s) = completion p cs s
   \<or> (3 \<le> stall_next s \<and> completion p cs s = (after_dedupe s, [], Some RangeError))"
    unfolding completion_def Let_def eq after_dedupe_def [symmetric]
    by (auto split: option.splits list.splits)
  then show thesis
    using assms need final range by blast
qed

lemma need_more_fields:
  assumes "need_more cs oc s = (s', cmds, x)"
  shows "stallCount s' = stallCount s" "requestCount s' = requestCount s + 1"
    "subscribed s' = subscribed s" "promise s' = promise s"
    "cmds = [] \<or> cmds = [request_more_data cs]"
  using assms by (auto simp: need_more_def Let_def split: option.splits if_splits)

lemma finalize_fields:
  assumes "finalize p s = (s', cmds, x)"
  shows "stallCount s' = stallCount s" "requestCount s' = requestCount s"
    "\<not> subscribed s'" "cmds = []"
    "promise s = Pending \<Longrightarrow> x = Some RangeError \<or> (\<exists>bars. promise s' = Fulfilled bars)"
  using assms by (auto simp: finalize_def Let_def split: if_splits)

lemma after_dedupe_fields:
  "stallCount (after_dedupe s) = stall_next s" "requestCount (after_dedupe s) = requestCount s"
  "subscribed (after_dedupe s) = subscribed s" "promise (after_dedupe s) = promise s"
  by (simp_all add: after_dedupe_def)

lemma stall_next_pos: "0 < stall_next s \<Longrightarrow> 0 < requestCount s"
  by (simp add: stall_next_def split: if_splits)

lemma completion_fields:
  assumes "completion p cs s = (s', cmds, x)"
  shows "stallCount s' = stall_next s" "requestCount s \<le> requestCount s'"
  using assms
  by (cases rule: completion_cases;
      auto simp: after_dedupe_fields dest: need_more_fields finalize_fields)+

lemma completion_cmds:
  assumes "completion p cs s = (s', cmds, x)"
  shows "cmds = [] \<or> (cmds = [request_more_data cs] \<and> stall_next s < 3)"
  using assms
  by (cases rule: completion_cases) (auto dest: need_more_fields(5) finalize_fields(4))

lemma completion_subscribed:
  assumes "completion p cs s = (s', cmds, x)" "subscribed s'"
  shows "requestCount s' > 0 \<and> promise s' = promise s \<and> (stall_next s < 3 \<or> x = Some RangeError)"
  using assms(1)
proof (cases rule: completion_cases)
  case (need oc)
  from need_more_fields [OF need(2)] need(1) show ?thesis
    by (simp add: after_dedupe_fields)
next
  case final
  from finalize_fields(3) [OF final] assms(2) show ?thesis by simp
next
  case range
  then show ?thesis using stall_next_pos [of s]
    by (simp add: after_dedupe_fields)
qed

lemma completion_unsubscribed:
  assumes "completion p cs s = (s', cmds, x)" "\<not> subscribed s'" "subscribed s" "promise s = Pending"
  shows "x = Some RangeError \<or> (\<exists>bars. promise s' = Fulfilled bars)"
  using assms(1)
proof (cases rule: completion_cases)
  case (need oc)
  from need_more_fields(3) [OF need(2)] assms(2,3) show ?thesis
    by (simp add: after_dedupe_fields)
next
  case final
  from finalize_fields(5) [OF final] assms(4) show ?thesis
    by (simp add: after_dedupe_fields)
next
  case range
  then show ?thesis by simp
qed

lemma handler_other:
  assumes "\<not> is_completion e" "handler p cs s e = (s', cmds, x)"
  shows "cmds = [] \<and> x = None \<and> stallCount s' = stallCount s \<and> requestCount s' = requestCount s
    \<and> lastLength s' = lastLength s \<and> subscribed s' = subscribed s \<and> promise s' = promise s"
  using assms by (auto simp: handler_def is_completion_def split: option.splits if_splits)

lemma deliver_Cons:
  assumes "subscribed s" "handler p cs s e = (s1, c1, x)"
  shows "fst (deliver p cs (e # es) s) = fst (deliver p cs es s1)"
    "fst (snd (deliver p cs (e # es) s)) = c1 @ fst (snd (deliver p cs es s1))"
    "snd (snd (deliver p cs (e # es) s)) =
       (case x of None \<Rightarrow> [] | Some err \<Rightarrow> [err]) @ snd (snd (deliver p cs es s1))"
  using assms by (simp_all split: prod.splits)

declare deliver.simps(2) [simp del]

lemma more_requests_simps:
  "more_requests [] = 0" "more_requests (request_more_data cs # cmds) = Suc (more_requests cmds)"
  "more_requests (c1 @ c2) = more_requests c1 + more_requests c2"
  by (simp_all add: more_requests_def request_more_data_def)

lemma stalled_requests:
  assumes "requestCount s > 0" "stalled_run p cs s es"
  shows "more_requests (fst (snd (deliver p cs es s))) \<le> 2 - stallCount s"
  using assms
proof (induction es arbitrary: s)
  case Nil
  then show ?case by (simp add: more_requests_simps)
next
  case (Cons e es)
  show ?case
  proof (cases "subscribed s")
    case False
    then show ?thesis by (simp add: deliver_unsubscribed more_requests_simps)
  next
    case True
    obtain s1 c1 x where h: "handler p cs s e = (s1, c1, x)"
      by (cases "handler p cs s e") auto
    have run: "stalled_run p cs s1 es" and ng: "is_completion e \<longrightarrow> no_growth s"
      using Cons.prems(2) True h by simp_all
    show ?thesis
    proof (cases "is_completion e")
      case False
      from handler_other [OF False h]
      have "c1 = []" "stallCount s1 = stallCount s" "requestCount s1 = requestCount s"
        by simp_all
      with Cons.IH [OF _ run] Cons.prems(1) show ?thesis
        by (simp add: deliver_Cons [OF True h] more_requests_simps)
    next
      case c: True
      then have comp: "completion p cs s = (s1, c1, x)"
        using h by (simp add: handler_completion)
      have sn: "stall_next s = stallCount s + 1"
        using c ng Cons.prems(1) by (simp add: stall_next_def)
      have st: "stallCount s1 = stallCount s + 1" and rc: "requestCount s1 > 0"
        using completion_fields [OF comp] sn Cons.prems(1) by simp_all
      from Cons.IH [OF rc run] st
      have ih: "more_requests (fst (snd (deliver p cs es s1))) \<le> 2 - (stallCount s + 1)"
        by simp
      from completion_cmds [OF comp] sn
      have "c1 = [] \<or> (c1 = [request_more_data cs] \<and> stallCount s + 1 < 3)"
        by simp
      then show ?thesis
        using ih by (auto simp: deliver_Cons [OF True h] more_requests_simps)
    qed
  qed
qed

lemma stalled_resolves:
  assumes "subscribed s" "promise s = Pending" "requestCount s > 0" "stallCount s \<le> 2"
    and "stalled_run p cs s es"
    and "3 \<le> stallCount s + length (filter is_completion es)"
    and "RangeError \<notin> set (snd (snd (deliver p cs es s)))"
  shows "\<not> subscribed (fst (deliver p cs es s))
    \<and> (\<exists>bars. promise (fst (deliver p cs es s)) = Fulfilled bars)"
  using assms
proof (induction es arbitrary: s)
  case Nil
  then show ?case by simp
next
  case (Cons e es)
  obtain s1 c1 x where h: "handler p cs s e = (s1, c1, x)"
    by (cases "handler p cs s e") auto
  note d = deliver_Cons [OF Cons.prems(1) h]
  have run: "stalled_run p cs s1 es" and ng: "is_completion e \<longrightarrow> no_growth s"
    using Cons.prems(5) Cons.prems(1) h by simp_all
  have nr: "x \<noteq> Some RangeError" "RangeError \<notin> set (snd (snd (deliver p cs es s1)))"
    using Cons.prems(7) by (auto simp: d split: option.splits)
  show ?case
  proof (cases "is_completion e")
    case False
    from handler_other [OF False h] Cons.prems
    have "subscribed s1" "promise s1 = Pending" "requestCount s1 > 0" "stallCount s1 \<le> 2"
      "3 \<le> stallCount s1 + length (filter is_completion es)"
      using False by simp_all
    from Cons.IH [OF this(1-4) run this(5) nr(2)] show ?thesis
      by (simp add: d)
  next
    case c: True
    then have comp: "completion p cs s = (s1, c1, x)"
      using h by (simp add: handler_completion)
    have sn: "stall_next s = stallCount s + 1"
      using c ng Cons.prems(3) by (simp add: stall_next_def)
    show ?thesis
    proof (cases "subscribed s1")
      case True
      from completion_subscribed [OF comp True] nr(1) sn Cons.prems(2)
      have "requestCount s1 > 0" "promise s1 = Pending" "stallCount s + 1 < 3"
        by simp_all
      moreover have "stallCount s1 = stallCount s + 1"
        using completion_fields(1) [OF comp] sn by simp
      moreover have "3 \<le> stallCount s + 1 + length (filter is_completion es)"
        using Cons.prems(6) c by simp
      ultimately show ?thesis
        using Cons.IH [OF True _ _ _ run _ nr(2)] by (simp add: d)
    next
      case False
      from completion_unsubscribed [OF comp False Cons.prems(1,2)] nr(1)
      obtain bars where "promise s1 = Fulfilled bars" by auto
      with False show ?thesis
        by (simp add: d deliver_unsubscribed)
    qed
  qed
qed

lemma deliver_requestCount:
  assumes "\<exists>e \<in> set es. is_completion e" "subscribed (fst (deliver p cs es s))"
  shows "requestCount (fst (deliver p cs es s)) > 0"
  using assms
proof (induction es arbitrary: s)
  case Nil
  then show ?case by simp
next
  case (Cons e es)
  show ?case
  proof (cases "subscribed s")
    case False
    then show ?thesis using Cons.prems(2) by (simp add: deliver_unsubscribed)
  next
    case True
    obtain s1 c1 x where h: "handler p cs s e = (s1, c1, x)"
      by (cases "handler p cs s e") auto
    note d = deliver_Cons [OF True h]
    have sub: "subscribed (fst (deliver p cs es s1))"
      using Cons.prems(2) by (simp add: d)
    show ?thesis
    proof (cases "\<exists>e \<in> set es. is_completion e")
      case True
      from Cons.IH [OF True sub] show ?thesis by (simp add: d)
    next
      case False
      then have c: "is_completion e" using Cons.prems(1) by auto
      then have comp: "completion p cs s = (s1, c1, x)"
        using h by (simp add: handler_completion)
      have mono: "requestCount s1 \<le> requestCount (fst (deliver p cs es s1))
        \<and> (subscribed (fst (deliver p cs es s1)) \<longrightarrow> subscribed s1)"
        using False
      proof (induction es arbitrary: s1)
        case Nil
        then show ?case by simp
      next
        case (Cons a es)
        show ?case
        proof (cases "subscribed s1")
          case False
          then show ?thesis by (simp add: deliver_unsubscribed)
        next
          case True
          obtain s2 c2 x2 where h2: "handler p cs s1 a = (s2, c2, x2)"
            by (cases "handler p cs s1 a") auto
          have "\<not> is_completion a" using Cons.prems by simp
          from handler_other [OF this h2] Cons.IH [of s2] Cons.prems True
          show ?thesis by (simp add: deliver_Cons [OF True h2])
        qed
      qed
      with sub have "subscribed s1" by simp
      from completion_subscribed [OF comp this] mono show ?thesis
        by (simp add: d)
    qed
  qed
qed

section \<open>A partial batch followed by stalls\<close>


lemmas eval_defs = sample_defs run_defs is_completion_def no_growth_def more_requests_def
  deliver.simps since_def four_bars_def




lemma stalled_run_append:
  "stalled_run p cs s (es1 @ es2) \<Longrightarrow> stalled_run p cs (fst (deliver p cs es1 s)) es2"
proof (induction es1 arbitrary: s)
  case Nil
  then show ?case by simp
next
  case (Cons e es1)
  show ?case
  proof (cases "subscribed s")
    case False
    then have "\<not> subscribed (fst (deliver p cs (e # es1) s))"
      by (simp add: deliver_unsubscribed)
    then show ?thesis by (cases es2) simp_all
  next
    case True
    obtain s1 c1 x where h: "handler p cs s e = (s1, c1, x)"
      by (cases "handler p cs s e") auto
    have "stalled_run p cs s1 (es1 @ es2)"
      using Cons.prems True h by simp
    from Cons.IH [OF this] show ?thesis
      by (simp add: deliver_Cons [OF True h])
  qed
qed

lemma stalled_count:
  assumes "requestCount s > 0" "stalled_run p cs s es" "subscribed (fst (deliver p cs es s))"
  shows "stallCount (fst (deliver p cs es s)) = stallCount s + length (filter is_completion es)
    \<and> requestCount (fst (deliver p cs es s)) > 0"
  using assms
proof (induction es arbitrary: s)
  case Nil
  then show ?case by simp
next
  case (Cons e es)
  have sub: "subscribed s"
    using Cons.prems(3) by (rule contrapos_pp) (simp add: deliver_unsubscribed)
  obtain s1 c1 x where h: "handler p cs s e = (s1, c1, x)"
    by (cases "handler p cs s e") auto
  note d = deliver_Cons [OF sub h]
  have run: "stalled_run p cs s1 es" and ng: "is_completion e \<longrightarrow> no_growth s"
    using Cons.prems(2) sub h by simp_all
  have sub1: "subscribed (fst (deliver p cs es s1))"
    using Cons.prems(3) by (simp add: d)
  show ?case
  proof (cases "is_completion e")
    case False
    from handler_other [OF False h] Cons.prems(1)
    have "requestCount s1 > 0" "stallCount s1 = stallCount s" by simp_all
    with Cons.IH [OF _ run sub1] False show ?thesis
      by (simp add: d)
  next
    case True
    then have comp: "completion p cs s = (s1, c1, x)"
      using h by (simp add: handler_completion)
    have sn: "stall_next s = stallCount s + 1"
      using True ng Cons.prems(1) by (simp add: stall_next_def)
    have "stallCount s1 = stallCount s + 1" "requestCount s1 > 0"
      using completion_fields [OF comp] sn Cons.prems(1) by simp_all
    with Cons.IH [OF _ run sub1] True show ?thesis
      by (simp add: d)
  qed
qed

lemma stalled_no_more_requests:
  assumes "requestCount s > 0" "stalled_run p cs s (es1 @ es2)"
    and "3 \<le> length (filter is_completion es1)"
  shows "more_requests (fst (snd (deliver p cs es2 (fst (deliver p cs es1 s))))) = 0"
proof (cases "subscribed (fst (deliver p cs es1 s))")
  case False
  then show ?thesis by (simp add: deliver_unsubscribed more_requests_simps)
next
  case True
  let ?s1 = "fst (deliver p cs es1 s)"
  have run1: "stalled_run p cs s es1"
    using assms(2)
  proof (induction es1 arbitrary: s)
    case Nil
    then show ?case by simp
  next
    case (Cons e es1)
    then show ?case by (cases "subscribed s") simp_all
  qed
  from stalled_count [OF assms(1) run1 True] assms(3)
  have "3 \<le> stallCount ?s1" "requestCount ?s1 > 0" by simp_all
  with stalled_requests [OF _ stalled_run_append [OF assms(2)]]
  show ?thesis by fastforce
qed

lemma deliver_invariant:
  assumes "subscribed s" "promise s = Pending" "stallCount s \<le> 2"
    and "RangeError \<notin> set (snd (snd (deliver p cs es s)))"
  shows "(\<not> subscribed (fst (deliver p cs es s))
          \<and> (\<exists>bars. promise (fst (deliver p cs es s)) = Fulfilled bars))
    \<or> (subscribed (fst (deliver p cs es s)) \<and> promise (fst (deliver p cs es s)) = Pending
          \<and> stallCount (fst (deliver p cs es s)) \<le> 2)"
  using assms
proof (induction es arbitrary: s)
  case Nil
  then show ?case by simp
next
  case (Cons e es)
  obtain s1 c1 x where h: "handler p cs s e = (s1, c1, x)"
    by (cases "handler p cs s e") auto
  note d = deliver_Cons [OF Cons.prems(1) h]
  have nr: "x \<noteq> Some RangeError" "RangeError \<notin> set (snd (snd (deliver p cs es s1)))"
    using Cons.prems(4) by (auto simp: d split: option.splits)
  show ?case
  proof (cases "is_completion e")
    case False
    from handler_other [OF False h] Cons.prems
    have "subscribed s1" "promise s1 = Pending" "stallCount s1 \<le> 2"
      by simp_all
    from Cons.IH [OF this nr(2)] show ?thesis
      by (simp add: d)
  next
    case True
    then have comp: "completion p cs s = (s1, c1, x)"
      using h by (simp add: handler_completion)
    show ?thesis
    proof (cases "subscribed s1")
      case True
      from completion_subscribed [OF comp True] nr(1) Cons.prems(2)
        completion_fields(1) [OF comp]
      have "promise s1 = Pending" "stallCount s1 \<le> 2"
        by simp_all
      from Cons.IH [OF True this nr(2)] show ?thesis
        by (simp add: d)
    next
      case False
      from completion_unsubscribed [OF comp False Cons.prems(1,2)] nr(1)
      obtain bars where "promise s1 = Fulfilled bars" by auto
      with False show ?thesis
        by (simp add: d deliver_unsubscribed)
    qed
  qed
qed

text \<open>
  C3 (amended). Take any events \<open>es0\<close> delivered to a fresh fetch, among them at least one
  completion event (the first completion is never counted as a stall, because no follow-up
  request has been issued before it), and let them be followed by events \<open>es\<close> in which
  every completion event is observed with no growth, three of them or more. Then at most
  two follow-up requests are issued during \<open>es\<close>, and none after the third of these
  completion events, whether or not the target given by \<open>from_ts\<close> was reached; and
  unless \<^verbatim>\<open>toISOString\<close> raised a RangeError, the fetch is resolved and unsubscribed at the
  end.
\<close>

theorem C3_stalls_after_first_completion:
  assumes "s = fst (deliver p cs es0 fetch_init)"
    and "\<exists>e \<in> set es0. is_completion e"
    and "stalled_run p cs s es"
    and "3 \<le> length (filter is_completion es)"
  shows "more_requests (fst (snd (deliver p cs es s))) \<le> 2
    \<and> (\<forall>es1 es2. es = es1 @ es2 \<and> 3 \<le> length (filter is_completion es1) \<longrightarrow>
          more_requests (fst (snd (deliver p cs es2 (fst (deliver p cs es1 s))))) = 0)
    \<and> (RangeError \<notin> set (snd (snd (deliver p cs es0 fetch_init)))
         \<and> RangeError \<notin> set (snd (snd (deliver p cs es s)))
       \<longrightarrow> \<not> subscribed (fst (deliver p cs es s))
         \<and> (\<exists>bars. promise (fst (deliver p cs es s)) = Fulfilled bars))"
proof -
  have init: "subscribed fetch_init" "promise fetch_init = Pending" "stallCount fetch_init \<le> 2"
    by (simp_all add: fetch_init_def)
  have rc: "requestCount s > 0" if "subscribed s"
    using that deliver_requestCount [OF assms(2)] unfolding assms(1) by blast
  have a: "more_requests (fst (snd (deliver p cs es s))) \<le> 2"
  proof (cases "subscribed s")
    case True
    from stalled_requests [OF rc [OF True] assms(3)] show ?thesis by simp
  next
    case False
    then show ?thesis by (simp add: deliver_unsubscribed more_requests_simps)
  qed
  have b: "more_requests (fst (snd (deliver p cs es2 (fst (deliver p cs es1 s))))) = 0"
    if "es = es1 @ es2 \<and> 3 \<le> length (filter is_completion es1)" for es1 es2
  proof (cases "subscribed s")
    case True
    from stalled_no_more_requests [OF rc [OF True], of p cs es1 es2] assms(3) that
    show ?thesis by simp
  next
    case False
    then show ?thesis by (simp add: deliver_unsubscribed more_requests_simps)
  qed
  have c: "\<not> subscribed (fst (deliver p cs es s))
      \<and> (\<exists>bars. promise (fst (deliver p cs es s)) = Fulfilled bars)"
    if nr: "RangeError \<notin> set (snd (snd (deliver p cs es0 fetch_init)))
         \<and> RangeError \<notin> set (snd (snd (deliver p cs es s)))"
  proof (cases "subscribed s")
    case True
    with deliver_invariant [OF init, of p cs es0] nr
    have s: "promise s = Pending" "stallCount s \<le> 2"
      unfolding assms(1) by simp_all
    have "3 \<le> stallCount s + length (filter is_completion es)"
      using assms(4) by simp
    from stalled_resolves [OF True s(1) rc [OF True] s(2) assms(3) this] nr
    show ?thesis by simp
  next
    case False
    with deliver_invariant [OF init, of p cs es0] nr show ?thesis
      unfolding assms(1) by (simp add: deliver_unsubscribed)
  qed
  from a b c show ?thesis by blast
qed

text \<open>
  Three consecutive completion events with no growth do not end a fetch by amount that has
  received no bar: the first of them is not counted as a stall, each invocation raises the
  TypeError of \<^verbatim>\<open>oldestCandle.v[0]\<close>, and the fetch is still pending and subscribed.
\<close>

theorem C3_first_completion_counterexample:
  "stalled_run (by_amount 10) ''cs_A'' fetch_init
      [completed ''cs_A'', completed ''cs_A'', completed ''cs_A'']
   \<and> length (filter is_completion [completed ''cs_A'', completed ''cs_A'', completed ''cs_A'']) = 3
   \<and> subscribed (fst (deliver (by_amount 10) ''cs_A''
        [completed ''cs_A'', completed ''cs_A'', completed ''cs_A''] fetch_init))
   \<and> promise (fst (deliver (by_amount 10) ''cs_A''
        [completed ''cs_A'', completed ''cs_A'', completed ''cs_A''] fetch_init)) = Pending
   \<and> snd (snd (deliver (by_amount 10) ''cs_A''
        [completed ''cs_A'', completed ''cs_A'', completed ''cs_A''] fetch_init))
      = [TypeError, TypeError, TypeError]"
  by (simp add: eval_defs)

theorem C3_stalls_after_first_completion_witness:
  "(\<exists>e \<in> set [push ''cs_A'' [bar 5 1, bar 6 2], completed ''cs_A'']. is_completion e)
   \<and> stalled_run (since 1) ''cs_A''
        (fst (deliver (since 1) ''cs_A'' [push ''cs_A'' [bar 5 1, bar 6 2], completed ''cs_A'']
           fetch_init))
        [completed ''cs_A'', completed ''cs_A'', completed ''cs_A'']
   \<and> 3 \<le> length (filter is_completion [completed ''cs_A'', completed ''cs_A'', completed ''cs_A''])
   \<and> more_requests (fst (snd (deliver (since 1) ''cs_A''
        [completed ''cs_A'', completed ''cs_A'', completed ''cs_A'']
        (fst (deliver (since 1) ''cs_A'' [push ''cs_A'' [bar 5 1, bar 6 2], completed ''cs_A'']
           fetch_init))))) \<le> 2
   \<and> promise (fst (deliver (since 1) ''cs_A''
        [completed ''cs_A'', completed ''cs_A'', completed ''cs_A'']
        (fst (deliver (since 1) ''cs_A'' [push ''cs_A'' [bar 5 1, bar 6 2], completed ''cs_A'']
           fetch_init)))) = Fulfilled [to_candle (bar 5 1), to_candle (bar 6 2)]"
  using C3_stalls_after_first_completion [of
      "fst (deliver (since 1) ''cs_A'' [push ''cs_A'' [bar 5 1, bar 6 2], completed ''cs_A'']
           fetch_init)"
      "since 1" "''cs_A''" "[push ''cs_A'' [bar 5 1, bar 6 2], completed ''cs_A'']"
      "[completed ''cs_A'', completed ''cs_A'', completed ''cs_A'']"]
  by (simp add: eval_defs)

section \<open>Events of other sessions\<close>



lemma deliver_Cons_unsubscribed: "\<not> subscribed s \<Longrightarrow> deliver p cs (e # es) s = deliver p cs es s"
  by (simp add: deliver.simps)







section \<open>getCandlesMultiple\<close>

lemma loop_never_rejects:
  "fst (getCandlesMultiple_loop gc symbols results w) \<noteq> Rejected err"
proof (induction symbols arbitrary: results w)
  case Nil
  then show ?case by simp
next
  case (Cons sy symbols)
  show ?case
    by (cases "gc sy w"; cases "fst (gc sy w)") (simp_all add: Cons.IH)
qed

lemma loop_settled:
  assumes "\<forall>c \<in> set (calls gc symbols w). snd c \<noteq> Pending"
  shows "fst (getCandlesMultiple_loop gc symbols results w) =
    Fulfilled (fold put (calls gc symbols w) results)"
  using assms
proof (induction symbols arbitrary: results w)
  case Nil
  then show ?case by simp
next
  case (Cons sy symbols)
  obtain r w1 where g: "gc sy w = (r, w1)" by (cases "gc sy w")
  have r: "r \<noteq> Pending" and rest: "\<forall>c \<in> set (calls gc symbols w1). snd c \<noteq> Pending"
    using Cons.prems g by (auto split: if_splits)
  show ?case
    using r g Cons.IH [OF rest] by (cases r) (simp_all add: put_def)
qed

lemma calls_symbols:
  "\<forall>c \<in> set (calls gc symbols w). snd c \<noteq> Pending \<Longrightarrow> map fst (calls gc symbols w) = symbols"
  by (induction symbols arbitrary: w) (auto split: if_splits)

lemma put_keys: "set (map fst (put c m)) = insert (fst c) (set (map fst m))"
  by (auto simp: put_def keys_map_set)

lemma put_map_of: "map_of (put c m) = (map_of m)(fst c \<mapsto> candles_of (snd c))"
  by (simp add: put_def map_of_map_set)

lemma fold_put_keys:
  "set (map fst (fold put cs m)) = set (map fst m) \<union> set (map fst cs)"
proof (induction cs arbitrary: m)
  case Nil
  then show ?case by simp
next
  case (Cons c cs)
  have "set (map fst (fold put (c # cs) m)) = set (map fst (put c m)) \<union> set (map fst cs)"
    using Cons.IH [of "put c m"] by simp
  then show ?case
    unfolding put_keys by auto
qed

lemma fold_put_distinct:
  "distinct (map fst m) \<Longrightarrow> distinct (map fst (fold put cs m))"
  by (induction cs arbitrary: m) (simp_all add: put_def distinct_map_set)

lemma fold_put_map_of:
  "map_of (fold put cs m) = map_of m ++ map_of (rev (map (\<lambda>c. (fst c, candles_of (snd c))) cs))"
proof (induction cs arbitrary: m)
  case Nil
  then show ?case by simp
next
  case (Cons c cs)
  have "map_of (fold put (c # cs) m) =
      map_of (put c m) ++ map_of (rev (map (\<lambda>c. (fst c, candles_of (snd c))) cs))"
    using Cons.IH [of "put c m"] by simp
  then show ?case
    unfolding put_map_of
    by (simp add: fun_eq_iff map_add_def split: option.splits)
qed

lemma loop_pending:
  assumes "\<exists>c \<in> set (calls gc symbols w). snd c = Pending"
  shows "fst (getCandlesMultiple_loop gc symbols results w) = Pending"
  using assms
proof (induction symbols arbitrary: results w)
  case Nil
  then show ?case by simp
next
  case (Cons sy symbols)
  obtain r w1 where g: "gc sy w = (r, w1)" by (cases "gc sy w")
  show ?case
  proof (cases "r = Pending")
    case True
    then show ?thesis using g by simp
  next
    case False
    then have "\<exists>c \<in> set (calls gc symbols w1). snd c = Pending"
      using Cons.prems g by simp
    from Cons.IH [OF this] False g show ?thesis
      by (cases r) simp_all
  qed
qed

text \<open>
  Two inputs on which the claim as it stands fails. With a \<^verbatim>\<open>getCandles\<close> whose promise
  never settles, \<^verbatim>\<open>getCandlesMultiple\<close> does not resolve: its promise stays pending. With the
  symbol \<^verbatim>\<open>X\<close> requested twice, the first call failing and the second succeeding, the
  symbol whose call failed is mapped to the bars of the second call, not to the empty list.
\<close>

theorem C10_pending_and_repeated_symbol_counterexample:
  "fst (getCandlesMultiple hanging [''X''] 0) = Pending
   \<and> calls fail_first [''X'', ''X''] 0
       = [(''X'', Rejected (Timeout ''X'')), (''X'', Fulfilled [to_candle (bar 1 1)])]
   \<and> fst (getCandlesMultiple fail_first [''X'', ''X''] 0)
       = Fulfilled [(''X'', [to_candle (bar 1 1)])]"
  by (simp add: hanging_def fail_first_def getCandlesMultiple_def)

text \<open>
  C10 (amended). \<^verbatim>\<open>getCandlesMultiple\<close> never rejects. When every \<^verbatim>\<open>getCandles\<close> call it
  awaits settles, it resolves with a map that has exactly one entry for each requested
  symbol; the entry of a symbol is the result of the last call made for it, the empty list
  if that call was rejected, so that for distinct symbols every symbol whose call failed is
  mapped to the empty list. When an awaited call never settles, the promise of
  \<^verbatim>\<open>getCandlesMultiple\<close> stays pending.
\<close>

theorem C10_getCandlesMultiple_never_rejects:
  "fst (getCandlesMultiple gc symbols w) \<noteq> Rejected err
   \<and> ((\<forall>c \<in> set (calls gc symbols w). snd c \<noteq> Pending) \<longrightarrow>
       (\<exists>m. fst (getCandlesMultiple gc symbols w) = Fulfilled m
          \<and> distinct (map fst m) \<and> set (map fst m) = set symbols
          \<and> map_of m = map_of (rev (map (\<lambda>c. (fst c, candles_of (snd c))) (calls gc symbols w)))
          \<and> (distinct symbols \<longrightarrow>
               (\<forall>sy e. (sy, Rejected e) \<in> set (calls gc symbols w) \<longrightarrow> map_of m sy = Some []))))
   \<and> ((\<exists>c \<in> set (calls gc symbols w). snd c = Pending) \<longrightarrow>
       fst (getCandlesMultiple gc symbols w) = Pending)"
proof -
  have 1: "fst (getCandlesMultiple gc symbols w) \<noteq> Rejected err"
    by (simp add: getCandlesMultiple_def loop_never_rejects)
  have 2: "\<exists>m. fst (getCandlesMultiple gc symbols w) = Fulfilled m
          \<and> distinct (map fst m) \<and> set (map fst m) = set symbols
          \<and> map_of m = map_of (rev (map (\<lambda>c. (fst c, candles_of (snd c))) (calls gc symbols w)))
          \<and> (distinct symbols \<longrightarrow>
               (\<forall>sy e. (sy, Rejected e) \<in> set (calls gc symbols w) \<longrightarrow> map_of m sy = Some []))"
    if np: "\<forall>c \<in> set (calls gc symbols w). snd c \<noteq> Pending"
  proof -
    let ?cs = "calls gc symbols w"
    let ?m = "fold put ?cs []"
    have a: "fst (getCandlesMultiple gc symbols w) = Fulfilled ?m"
      by (simp add: getCandlesMultiple_def loop_settled [OF np])
    have b: "distinct (map fst ?m)"
      by (simp add: fold_put_distinct)
    have keys: "map fst ?cs = symbols"
      by (rule calls_symbols [OF np])
    have c: "set (map fst ?m) = set symbols"
      unfolding fold_put_keys keys by simp
    have d: "map_of ?m = map_of (rev (map (\<lambda>c. (fst c, candles_of (snd c))) ?cs))"
      by (simp add: fold_put_map_of)
    have e: "map_of ?m sy = Some []"
      if ds: "distinct symbols" and mem: "(sy, Rejected e) \<in> set ?cs" for sy e
    proof -
      let ?kvs = "rev (map (\<lambda>c. (fst c, candles_of (snd c))) ?cs)"
      have "distinct (map fst ?kvs)"
        using ds keys by (simp add: rev_map [symmetric] comp_def)
      moreover have "(sy, []) \<in> set ?kvs"
        using mem by force
      ultimately have "map_of ?kvs sy = Some []"
        by (rule map_of_is_SomeI)
      then show ?thesis by (simp only: d)
    qed
    from a b c d e show ?thesis by blast
  qed
  have 3: "fst (getCandlesMultiple gc symbols w) = Pending"
    if "\<exists>c \<in> set (calls gc symbols w). snd c = Pending"
    using loop_pending [OF that] by (simp add: getCandlesMultiple_def)
  from 1 2 3 show ?thesis by blast
qed

theorem C10_getCandlesMultiple_never_rejects_witness:
  "list_all (\<lambda>c. snd c \<noteq> Pending) (calls flaky [''X'', ''BAD''] 0)
   \<and> distinct [''X'', ''BAD'']
   \<and> (''BAD'', Rejected (Timeout ''BAD'')) \<in> set (calls flaky [''X'', ''BAD''] 0)
   \<and> fst (getCandlesMultiple flaky [''X'', ''BAD''] 0)
       = Fulfilled [(''X'', [to_candle (bar 1 1)]), (''BAD'', [])]
   \<and> fst (getCandlesMultiple flaky [''X'', ''BAD''] 0) \<noteq> Rejected (Timeout ''BAD'')
   \<and> (\<exists>c \<in> set (calls hanging [''X'', ''BAD''] 0). snd c = Pending)
   \<and> fst (getCandlesMultiple hanging [''X'', ''BAD''] 0) = Pending"
  using C10_getCandlesMultiple_never_rejects [of flaky "[''X'', ''BAD'']" 0 "Timeout ''BAD''"]
    C10_getCandlesMultiple_never_rejects [of hanging "[''X'', ''BAD'']" 0 "Timeout ''BAD''"]
  by (simp add: flaky_def hanging_def getCandlesMultiple_def)

section \<open>Framing\<close>

lemma tilde_m: "lit ''~m~'' = [126, 109, 126]"
  by (simp add: lit_def)

lemma length_tilde_m: "length (lit ''~m~'') = 3"
  by (simp add: lit_def)

lemma not_digit_tilde: "\<not> is_digit 126" "\<not> is_digit 109"
  by (simp_all add: is_digit_def)

lemma marker_len_frame:
  assumes "ds \<noteq> []" "list_all is_digit ds"
  shows "marker_len (frame ds pl @ rest) = Some (6 + length ds)"
proof -
  let ?s = "lit ''~m~'' @ ds @ lit ''~m~'' @ pl @ rest"
  have 1: "take 3 ?s = lit ''~m~''"
    by (simp add: length_tilde_m)
  have 2: "drop 3 ?s = ds @ lit ''~m~'' @ pl @ rest"
    by (simp add: length_tilde_m)
  have 3: "takeWhile is_digit (ds @ lit ''~m~'' @ pl @ rest) = ds"
    using assms(2) by (simp add: takeWhile_append2 list_all_iff tilde_m not_digit_tilde)
  have 4: "take 3 (drop (3 + length ds) ?s) = lit ''~m~''"
    by (simp add: length_tilde_m)
  show ?thesis
    using assms(1) unfolding marker_len_def frame_def append_assoc 1 2 3 Let_def 4
    by simp
qed

lemma drop_frame: "drop (6 + length ds) (frame ds pl @ rest) = pl @ rest"
  by (simp add: frame_def length_tilde_m)

lemma split_frame:
  assumes "ds \<noteq> []" "list_all is_digit ds"
  shows "split_marker seg (frame ds pl @ rest) = seg # split_marker [] (pl @ rest)"
proof -
  obtain c cs where f: "frame ds pl @ rest = c # cs"
    by (cases "frame ds pl @ rest") (simp_all add: frame_def tilde_m)
  have "split_marker seg (c # cs) = seg # split_marker [] (drop (6 + length ds) (c # cs))"
    using marker_len_frame [OF assms, of pl rest] by (simp add: f)
  then show ?thesis
    using drop_frame [of ds pl rest] by (simp add: f)
qed

lemma marker_len_payload:
  assumes "\<not> has_delim (c # cs)" "rest = [] \<or> (\<exists>t. rest = lit ''~m~'' @ t)"
  shows "marker_len (c # cs @ rest) = None"
proof (cases cs)
  case Nil
  then show ?thesis
    using assms by (auto simp: marker_len_def tilde_m)
next
  case (Cons x xs)
  show ?thesis
  proof (cases xs)
    case Nil
    then show ?thesis
      using assms Cons
      by (auto simp: marker_len_def tilde_m Let_def not_digit_tilde)
  next
    case (Cons y ys)
    have ne: "take 3 (c # cs) \<noteq> lit ''~m~''"
      using assms(1) has_delim.simps(2) [of c cs] by blast
    have eq: "take 3 (c # cs @ rest) = take 3 (c # cs)"
      using Cons \<open>cs = x # xs\<close> by simp
    show ?thesis
      unfolding marker_len_def eq using ne by (simp only: if_False)
  qed
qed

lemma split_payload:
  assumes "\<not> has_delim pl" "rest = [] \<or> (\<exists>t. rest = lit ''~m~'' @ t)"
  shows "split_marker seg (pl @ rest) = split_marker (seg @ pl) rest"
  using assms(1)
proof (induction pl arbitrary: seg)
  case Nil
  then show ?case by simp
next
  case (Cons c cs)
  have "marker_len (c # cs @ rest) = None"
    using marker_len_payload [OF Cons.prems assms(2)] .
  moreover have "\<not> has_delim cs" using Cons.prems by simp
  ultimately show ?case
    using Cons.IH [of "seg @ [c]"] by simp
qed

lemma chunk_start: "chunk fs = [] \<or> (\<exists>t. chunk fs = lit ''~m~'' @ t)"
  by (cases fs) (simp_all add: chunk_def frame_def)

lemma split_chunk:
  assumes "list_all well_formed fs"
  shows "split_marker seg (chunk fs) = seg # map snd fs"
  using assms
proof (induction fs arbitrary: seg)
  case Nil
  then show ?case by (simp add: chunk_def)
next
  case (Cons f fs)
  then have rest: "list_all well_formed fs" and "well_formed f"
    by simp_all
  then have wf: "fst f \<noteq> []" "list_all is_digit (fst f)" "\<not> has_delim (snd f)"
    by (simp_all add: well_formed_def)
  have "split_marker seg (chunk (f # fs)) = split_marker seg (frame (fst f) (snd f) @ chunk fs)"
    by (simp add: chunk_def)
  also have "\<dots> = seg # split_marker [] (snd f @ chunk fs)"
    by (rule split_frame [OF wf(1,2)])
  also have "\<dots> = seg # split_marker ([] @ snd f) (chunk fs)"
    using split_payload [OF wf(3) chunk_start, of "[]"] by simp
  also have "\<dots> = seg # snd f # map snd fs"
    using Cons.IH [OF rest] by simp
  finally show ?case by simp
qed

lemma events_chunk: "list_all well_formed fs \<Longrightarrow> events (chunk fs) = map snd fs"
  by (simp add: events_def split_chunk)

lemma chunk_empty: "chunk fs = [] \<longleftrightarrow> fs = []"
  by (cases fs) (simp_all add: chunk_def frame_def tilde_m)

lemma parseMessage_chunk:
  assumes "list_all well_formed fs"
  shows "parseMessage JSON_parse (chunk fs) = map (decode_event JSON_parse) (map snd fs)"
  using events_chunk [OF assms] chunk_empty [of fs]
  by (auto simp: parseMessage_def)

lemma digit_is_digit: "k < 10 \<Longrightarrow> is_digit (word_of_nat (48 + k))"
proof -
  assume "k < 10"
  then have "k \<in> {0, 1, 2, 3, 4, 5, 6, 7, 8, 9}"
    by auto
  then show ?thesis
    by (auto simp: is_digit_def)
qed

lemma decimal_digits: "decimal n \<noteq> [] \<and> list_all is_digit (decimal n)"
proof (induction n rule: decimal.induct)
  case (1 n)
  show ?case
  proof (cases "n < 10")
    case True
    then have "decimal n = [word_of_nat (48 + n)]"
      by (subst decimal.simps) simp
    then show ?thesis
      using digit_is_digit [OF True] by (simp del: of_nat_add)
  next
    case False
    then have "decimal n = decimal (n div 10) @ [word_of_nat (48 + n mod 10)]"
      by (subst decimal.simps) simp
    moreover have "is_digit (word_of_nat (48 + n mod 10))"
      by (rule digit_is_digit) simp
    ultimately show ?thesis
      using 1 [OF False] by (simp del: of_nat_add)
  qed
qed

lemma utf8_length_ascii: "list_all (\<lambda>u. u < 0x80) pl \<Longrightarrow> utf8_length pl = length pl"
proof (induction pl rule: utf8_length.induct)
  case 1
  then show ?case by simp
next
  case (2 u)
  then show ?case by (simp add: unit_bytes_def)
next
  case (3 u v us)
  have "(0x80 :: 16 word) \<le> 0xD800" by simp
  moreover have "u < 0x80" using 3 by simp
  ultimately have "\<not> (0xD800 \<le> u)"
    by (meson leD le_less_trans less_le_trans)
  with 3 show ?case by (simp add: unit_bytes_def)
qed

text \<open>
  C7 (amended). For every chunk that consists of N length-prefixed frames whose payloads do
  not contain the delimiter text \<^verbatim>\<open>~m~\<close>, \<^verbatim>\<open>parseMessage\<close> returns exactly N payloads, the
  decoding of the first frame's payload first, and so on in the order of the chunk. The
  length field is not read: any non-empty string of digits is taken.
\<close>

theorem C7_frames_in_order:
  assumes "list_all well_formed fs"
  shows "parseMessage JSON_parse (chunk fs) = map (decode_event JSON_parse) (map snd fs)
    \<and> length (parseMessage JSON_parse (chunk fs)) = length fs"
  using parseMessage_chunk [OF assms, of JSON_parse] by simp

text \<open>
  One well-formed frame, whose length field 10 is the length of its payload, is decoded to
  two payloads, because the payload contains text that matches the delimiter expression.
\<close>

theorem C7_delimiter_in_payload_counterexample:
  "events (envelope (lit ''~j~~m~1~m~'')) = [lit ''~j~'', []]
   \<and> envelope (lit ''~j~~m~1~m~'') = lit ''~m~10~m~~j~~m~1~m~''
   \<and> length (parseMessage (\<lambda>s. None) (envelope (lit ''~j~~m~1~m~''))) = 2"
  by (simp add: envelope_def frame_def events_def parseMessage_def marker_len_def lit_def is_digit_def)

theorem C7_frames_in_order_witness:
  "list_all well_formed [(lit ''4'', lit ''~h~1''), (lit ''3'', lit ''abc'')]
   \<and> chunk [(lit ''4'', lit ''~h~1''), (lit ''3'', lit ''abc'')] = lit ''~m~4~m~~h~1~m~3~m~abc''
   \<and> parseMessage (\<lambda>s. None) (lit ''~m~4~m~~h~1~m~3~m~abc'')
       = [Ping (lit ''~m~4~m~~h~1''), Event (JObj [])]"
  using C7_frames_in_order [of "[(lit ''4'', lit ''~h~1''), (lit ''3'', lit ''abc'')]" "\<lambda>s. None"]
  by (simp add: well_formed_def chunk_def frame_def lit_def is_digit_def decode_event_def parse_json_def)

lemma formatMessage_envelope:
  "formatMessage JSON_stringify nm ps =
     envelope (JSON_stringify (JObj [(lit ''m'', JStr nm), (lit ''p'', JArr ps)]))"
  by (simp add: formatMessage_def envelope_def frame_def Let_def)

text \<open>
  C8 (amended). For every payload that begins with the heartbeat marker, the echo prepared
  by the decoder is the payload in the envelope whose length field is the length of the
  payload in UTF-16 code units, the \<^verbatim>\<open>length\<close> of the JavaScript string. For a payload of
  ASCII characters this is its byte length, and the echo is the envelope of the spec; and
  if the payload does not contain \<^verbatim>\<open>~m~\<close>, decoding that envelope gives back one heartbeat
  with the same echo.
\<close>

theorem C8_heartbeat_echo:
  assumes "take 3 pl = lit ''~h~''"
  shows "decode_event JSON_parse pl = Ping (envelope pl)
    \<and> (list_all (\<lambda>u. u < 0x80) pl \<longrightarrow> envelope pl = envelope_bytes pl)
    \<and> (\<not> has_delim pl \<longrightarrow> parseMessage JSON_parse (envelope pl) = [Ping (envelope pl)])"
proof -
  have 1: "decode_event JSON_parse pl = Ping (envelope pl)"
    using assms by (simp add: decode_event_def envelope_def frame_def)
  have 2: "envelope pl = envelope_bytes pl" if "list_all (\<lambda>u. u < 0x80) pl"
    using utf8_length_ascii [OF that] by (simp add: envelope_def envelope_bytes_def)
  have 3: "parseMessage JSON_parse (envelope pl) = [Ping (envelope pl)]" if "\<not> has_delim pl"
  proof -
    have "list_all well_formed [(decimal (length pl), pl)]"
      using that decimal_digits [of "length pl"] by (simp add: well_formed_def)
    from parseMessage_chunk [OF this, of JSON_parse] 1 show ?thesis
      by (simp add: chunk_def envelope_def)
  qed
  from 1 2 3 show ?thesis by blast
qed

text \<open>
  A heartbeat payload with one character outside ASCII, U+00E9: it has four code units and
  five bytes. The echo carries the length 4, the envelope with the byte length carries 5.
\<close>

theorem C8_byte_length_counterexample:
  "decode_event (\<lambda>s. None) (lit ''~h~'' @ [0xE9]) = Ping (lit ''~m~4~m~~h~'' @ [0xE9])
   \<and> envelope_bytes (lit ''~h~'' @ [0xE9]) = lit ''~m~5~m~~h~'' @ [0xE9]"
  by (simp add: decode_event_def envelope_bytes_def frame_def lit_def unit_bytes_def)

theorem C8_heartbeat_echo_witness:
  "take 3 (lit ''~h~17'') = lit ''~h~''
   \<and> decode_event (\<lambda>s. None) (lit ''~h~17'') = Ping (lit ''~m~5~m~~h~17'')
   \<and> list_all (\<lambda>u. u < 0x80) (lit ''~h~17'')
   \<and> envelope_bytes (lit ''~h~17'') = lit ''~m~5~m~~h~17''
   \<and> \<not> has_delim (lit ''~h~17'')
   \<and> parseMessage (\<lambda>s. None) (lit ''~m~5~m~~h~17'') = [Ping (lit ''~m~5~m~~h~17'')]"
  using C8_heartbeat_echo [of "lit ''~h~17''" "\<lambda>s. None"]
  by (simp add: envelope_def envelope_bytes_def frame_def lit_def unit_bytes_def)

section \<open>Dispatch\<close>






lemma unsubscribe_removes: "Some h \<notin> set (subscribers (unsubscribe h w))"
  by (auto simp: unsubscribe_def)

lemma unsubscribe_keeps_slots:
  "length (subscribers (unsubscribe h w)) = length (subscribers w)"
  by (simp add: unsubscribe_def)

lemma subscribe_appends:
  "h \<notin> set hs \<Longrightarrow> subscribers w = map Some hs \<Longrightarrow>
   subscribers (subscribe h w) = map Some (hs @ [h])"
  by (auto simp: subscribe_def)

lemma unsubscribe_own_slot:
  assumes "drop (Suc k) (subscribers v) = r" "Some g \<notin> set r"
  shows "drop (Suc k) (subscribers (unsubscribe g v)) = r"
proof -
  have "map (\<lambda>y. if y = Some g then None else y) r = r"
    using assms(2) by (induction r) auto
  then show ?thesis
    using assms(1) by (simp add: unsubscribe_def drop_map)
qed




section \<open>Closing the connection under a pending fetch\<close>







end
